theory Spec2Isabelle
  imports Complex_Main "HOL-Library.Monad_Syntax"
begin

section \<open>Cells\<close>

text \<open>
  Modelled from the spec: the \<^verbatim>\<open>CellStates\<close> module that \<^verbatim>\<open>Quadtree.js\<close> and
  \<^verbatim>\<open>GameManager.js\<close> require (with the members \<^verbatim>\<open>ALIVE\<close> and \<^verbatim>\<open>DEAD\<close>) is not among the
  sources; the spec gives the enumeration as ALIVE, DEAD, RETIRED.
\<close>

datatype CellState = DEAD | ALIVE | RETIRED

text \<open>
  Coordinates are JavaScript numbers. Every cell that is put on the grid has integer
  coordinates; the only other value that occurs is \<^verbatim>\<open>Infinity\<close>, in the frozen sentinel
  \<^verbatim>\<open>DeadCell\<close>. A cell is therefore parametrised by its coordinate type: \<open>int Cell\<close>
  for the cells of the grid and of the tree, \<open>num Cell\<close> for what a lookup hands back.
  The nested \<^verbatim>\<open>location = {row, col}\<close> is flattened; the trait list inherited from
  \<^verbatim>\<open>Entity\<close> (rendering) is left out.
\<close>

datatype num = Fin int | Infinity

datatype 'n Cell = Cell (row: 'n) (col: 'n) (age: int) (state: CellState)

text \<open>\<^verbatim>\<open>new Cell(row, col)\<close>: the defaults \<^verbatim>\<open>age=0, state=CellStates.ALIVE\<close>.\<close>

definition newCell :: "int \<Rightarrow> int \<Rightarrow> int Cell" where
  "newCell r c = Cell r c 0 ALIVE"

text \<open>The constructor sets \<^verbatim>\<open>this.width = 1\<close> and \<^verbatim>\<open>this.height = 1\<close> for every cell.\<close>

definition width :: "'n Cell \<Rightarrow> int" where
  "width cell = 1"

definition height :: "'n Cell \<Rightarrow> int" where
  "height cell = 1"

definition isInsideRect :: "int Cell \<Rightarrow> int \<Rightarrow> int \<Rightarrow> int \<Rightarrow> int \<Rightarrow> bool" where
  "isInsideRect cell x y xx yy =
     (x \<le> row cell \<and> row cell \<le> xx \<and> y \<le> col cell \<and> col cell \<le> yy)"

definition getState :: "'n Cell \<Rightarrow> CellState" where
  "getState cell = state cell"

definition Cell_clone :: "'n Cell \<Rightarrow> 'n Cell" where
  "Cell_clone cell = Cell (row cell) (col cell) (age cell) (state cell)"

definition DeadCell :: "num Cell" where
  "DeadCell = Cell Infinity Infinity 0 DEAD"

text \<open>A cell of the grid, seen as a lookup result.\<close>

definition onGrid :: "int Cell \<Rightarrow> num Cell" where
  "onGrid cell = Cell (Fin (row cell)) (Fin (col cell)) (age cell) (state cell)"

section \<open>Nodes of the quad tree\<close>

datatype Rect = Rect (rect_x: int) (rect_y: int) (rect_xx: int) (rect_yy: int)

text \<open>
  A \<^verbatim>\<open>QTNode\<close> keeps a flag \<^verbatim>\<open>subdivided\<close> and four child references. The constructor
  sets the flag to false and the four references to null; \<^verbatim>\<open>subdivide\<close> sets the flag and
  all four references together, and nothing else writes them while a tree is in use. The two
  constructors are these two states. The field \<^verbatim>\<open>id\<close> (a debugging counter) is left out.
  The field \<open>area\<close> is the value stored by the constructor, \<open>index\<close> is null (\<open>None\<close>)
  or a position in the tree's \<^verbatim>\<open>leaves\<close>.
\<close>

datatype QTNode =
  Undivided (rect: Rect) (area: int) (index: "int option")
| Subdivided (rect: Rect) (area: int) (index: "int option")
    (upperLeft: QTNode) (upperRight: QTNode) (lowerLeft: QTNode) (lowerRight: QTNode)

definition subdivided :: "QTNode \<Rightarrow> bool" where
  "subdivided node = (case node of Undivided r a i \<Rightarrow> False | Subdivided r a i ul ur ll lr \<Rightarrow> True)"

text \<open>The method \<^verbatim>\<open>area()\<close>, on the rectangle of the node.\<close>

definition area_of :: "Rect \<Rightarrow> int" where
  "area_of r =
     (let length = \<bar>rect_xx r\<bar> - \<bar>rect_x r\<bar>;
          height = \<bar>rect_yy r\<bar> - \<bar>rect_y r\<bar>
      in length * height)"

text \<open>\<^verbatim>\<open>new QTNode(id, x, y, xx, yy)\<close>.\<close>

definition newQTNode :: "int \<Rightarrow> int \<Rightarrow> int \<Rightarrow> int \<Rightarrow> QTNode" where
  "newQTNode x y xx yy = Undivided (Rect x y xx yy) (area_of (Rect x y xx yy)) None"

definition containsPoint :: "QTNode \<Rightarrow> int \<Rightarrow> int \<Rightarrow> bool" where
  "containsPoint node px py =
     ((rect_x (rect node) \<le> px \<and> px \<le> rect_xx (rect node)) \<and>
      (rect_y (rect node) \<le> py \<and> py \<le> rect_yy (rect node)))"

text \<open>\<^verbatim>\<open>containsRect(cell)\<close> throws for a null or undefined cell; a cell is never null here.\<close>

definition containsRect :: "QTNode \<Rightarrow> int Cell \<Rightarrow> bool" where
  "containsRect node cell =
     (containsPoint node (row cell) (col cell) \<and>
      containsPoint node (row cell + width cell) (col cell + height cell))"

definition intersectsAABB :: "QTNode \<Rightarrow> int \<Rightarrow> int \<Rightarrow> int \<Rightarrow> int \<Rightarrow> bool" where
  "intersectsAABB node x y xx yy =
     ((rect_x (rect node) \<le> xx \<and> rect_xx (rect node) \<ge> x) \<and>
      (rect_y (rect node) \<le> yy \<and> rect_yy (rect node) \<ge> y))"

definition setLeaf :: "QTNode \<Rightarrow> int \<Rightarrow> QTNode" where
  "setLeaf node i =
     (case node of
        Undivided r a old \<Rightarrow> Undivided r a (Some i)
      | Subdivided r a old ul ur ll lr \<Rightarrow> Subdivided r a (Some i) ul ur ll lr)"

text \<open>\<^verbatim>\<open>Math.ceil(d / 2)\<close> for an integer \<open>d\<close>.\<close>

definition ceil_half :: "int \<Rightarrow> int" where
  "ceil_half d = \<lceil>real_of_int d / 2\<rceil>"

definition subdivide :: "QTNode \<Rightarrow> QTNode" where
  "subdivide node =
     (case node of
        Subdivided r a i ul ur ll lr \<Rightarrow> node
      | Undivided r a i \<Rightarrow>
          (let p = rect_x r + ceil_half (\<bar>rect_xx r\<bar> - \<bar>rect_x r\<bar>);
               q = rect_y r + ceil_half (\<bar>rect_yy r\<bar> - \<bar>rect_y r\<bar>)
           in Subdivided r a i
                (newQTNode (rect_x r) (rect_y r) p q)
                (newQTNode p (rect_y r) (rect_xx r) q)
                (newQTNode (rect_x r) q p (rect_yy r))
                (newQTNode p q (rect_xx r) (rect_yy r))))"

section \<open>Building the tree\<close>

datatype AABB = AABB (rowMin: int) (colMin: int) (rowMax: int) (colMax: int)

definition emptyAABB :: AABB where
  "emptyAABB = AABB 0 0 0 0"

datatype error =
  TypeError
| SearchNullTree
| RangeQueryEmptyNode

text \<open>
  One step of the \<^verbatim>\<open>forEach\<close> of \<^verbatim>\<open>buildAxisAlignedBoundingBox\<close>, on
  \<open>(rowMin, rowMax, colMin, colMax)\<close>.
\<close>

definition extendBounds :: "int Cell \<Rightarrow> int \<times> int \<times> int \<times> int \<Rightarrow> int \<times> int \<times> int \<times> int" where
  "extendBounds cell b =
     (case b of (rMin, rMax, cMin, cMax) \<Rightarrow>
        (min rMin (row cell), max rMax (row cell), min cMin (col cell), max cMax (col cell)))"

text \<open>Reading \<^verbatim>\<open>cells[0].location\<close> of an empty array is a TypeError.\<close>

definition buildAxisAlignedBoundingBox :: "int Cell list \<Rightarrow> error + AABB" where
  "buildAxisAlignedBoundingBox cells =
     (case cells of
        [] \<Rightarrow> Inl TypeError
      | c0 # rest \<Rightarrow>
          (case fold extendBounds cells (row c0, row c0, col c0, col c0) of
             (rMin, rMax, cMin, cMax) \<Rightarrow> Inr (AABB rMin cMin (rMax + 1) (cMax + 1))))"

text \<open>
  \<^verbatim>\<open>addCell\<close> recurses into nodes that it creates itself, so nothing bounds its depth
  beforehand: the result is an option, \<open>None\<close> when the recursion does not return. The
  source updates the node in place; here the updated node is returned.
\<close>

partial_function (option) addCell :: "int \<Rightarrow> QTNode \<Rightarrow> int Cell \<Rightarrow> int \<Rightarrow> QTNode option" where
  "addCell minimumCellSize node cell i =
     (if \<not> containsRect node cell then Some node
      else if minimumCellSize \<ge> area node then Some (setLeaf node i)
      else
        (case subdivide node of
           Undivided r a ix \<Rightarrow> Some (Undivided r a ix)
         | Subdivided r a ix ul ur ll lr \<Rightarrow>
             do {
               ul' \<leftarrow> addCell minimumCellSize ul cell i;
               ur' \<leftarrow> addCell minimumCellSize ur cell i;
               ll' \<leftarrow> addCell minimumCellSize ll cell i;
               lr' \<leftarrow> addCell minimumCellSize lr cell i;
               Some (Subdivided r a ix ul' ur' ll' lr')
             }))"

declare addCell.simps [code]

text \<open>\<^verbatim>\<open>this.leaves.forEach((cell, index) => addCell(this.minimumCellSize, this.root, cell, index))\<close>, from position \<open>i\<close> on.\<close>

fun addCells :: "int \<Rightarrow> QTNode \<Rightarrow> int Cell list \<Rightarrow> int \<Rightarrow> QTNode option" where
  "addCells minimumCellSize node [] i = Some node"
| "addCells minimumCellSize node (cell # cells) i =
     do {
       node' \<leftarrow> addCell minimumCellSize node cell i;
       addCells minimumCellSize node' cells (i + 1)
     }"

section \<open>The quad tree\<close>

text \<open>
  The field \<^verbatim>\<open>minimumCellSize\<close> is set to 1 by the constructor and never written again:
  it is a constant here. The field \<^verbatim>\<open>boundary\<close> is undefined until the first
  \<^verbatim>\<open>index\<close>.
\<close>

record QuadTree =
  leaves :: "int Cell list"
  root :: "QTNode option"
  boundary :: "AABB option"

definition minimumCellSize :: int where
  "minimumCellSize = 1"

text \<open>\<^verbatim>\<open>new QuadTree(liveCells)\<close>.\<close>

definition newQuadTree :: "int Cell list \<Rightarrow> QuadTree" where
  "newQuadTree liveCells = \<lparr>leaves = liveCells, root = None, boundary = None\<rparr>"

definition aliveCellsCount :: "QuadTree \<Rightarrow> nat" where
  "aliveCellsCount tree = length (leaves tree)"

text \<open>
  \<^verbatim>\<open>clear()\<close>: \<^verbatim>\<open>recursiveDelete\<close> blanks the fields of every node of the old tree, which
  nothing refers to afterwards.
\<close>

definition clear :: "QuadTree \<Rightarrow> QuadTree" where
  "clear tree = tree\<lparr>root := None, leaves := []\<rparr>"

definition QuadTree_empty :: QuadTree where
  "QuadTree_empty = newQuadTree []"

text \<open>
  \<^verbatim>\<open>index(liveCells = null)\<close>: the argument is \<open>None\<close> for null. The method returns the
  root, which is also stored in the tree; the model returns the tree.
\<close>

definition QuadTree_index :: "QuadTree \<Rightarrow> int Cell list option \<Rightarrow> QuadTree option" where
  "QuadTree_index tree liveCells =
     (let t1 = (case liveCells of None \<Rightarrow> tree | Some cells \<Rightarrow> tree\<lparr>leaves := cells\<rparr>);
          b = (if length (leaves t1) > 0
               then (case buildAxisAlignedBoundingBox (leaves t1) of
                       Inr box \<Rightarrow> box | Inl e \<Rightarrow> emptyAABB)
               else emptyAABB);
          r0 = newQTNode (rowMin b) (colMin b) (rowMax b) (colMax b)
      in do {
           r \<leftarrow> addCells minimumCellSize r0 (leaves t1) 0;
           Some (t1\<lparr>boundary := Some b, root := Some r\<rparr>)
         })"

text \<open>\<^verbatim>\<open>QuadTree.clone(tree)\<close>: the argument may be undefined or null.\<close>

datatype 'a reference = Undefined | Null | Object 'a

definition QuadTree_clone :: "QuadTree reference \<Rightarrow> QuadTree option" where
  "QuadTree_clone tree =
     (case tree of
        Undefined \<Rightarrow> Some QuadTree_empty
      | Null \<Rightarrow> Some QuadTree_empty
      | Object t \<Rightarrow> QuadTree_index (newQuadTree (map Cell_clone (leaves t))) None)"

section \<open>Queries\<close>

text \<open>\<^verbatim>\<open>search(cell, currentNode)\<close> below a node that is not null.\<close>

fun search_node :: "int \<Rightarrow> int Cell \<Rightarrow> QTNode \<Rightarrow> QTNode option" where
  "search_node m cell (Undivided r a i) =
     (if a = m
      then (if containsRect (Undivided r a i) cell \<and> i \<noteq> None
            then Some (Undivided r a i) else None)
      else None)"
| "search_node m cell (Subdivided r a i ul ur ll lr) =
     (if a = m
      then (if containsRect (Subdivided r a i ul ur ll lr) cell \<and> i \<noteq> None
            then Some (Subdivided r a i ul ur ll lr) else None)
      else
        (let cellRightBoundary = row cell + width cell;
             cellLowerBoundary = col cell + height cell;
             horizontalPartition = rect_xx (rect ul);
             verticalPartition = rect_yy (rect ul)
         in if cellRightBoundary \<le> horizontalPartition
            then (if cellLowerBoundary \<le> verticalPartition
                  then search_node m cell ul
                  else search_node m cell ll)
            else (if cellLowerBoundary \<le> verticalPartition
                  then search_node m cell ur
                  else search_node m cell lr)))"

text \<open>\<^verbatim>\<open>search(cell)\<close> from the root: \<open>Inl\<close> is the thrown error, \<open>Inr None\<close> the result null.\<close>

definition search :: "QuadTree \<Rightarrow> int Cell \<Rightarrow> error + QTNode option" where
  "search tree cell =
     (case root tree of
        None \<Rightarrow> Inl SearchNullTree
      | Some node \<Rightarrow> Inr (search_node minimumCellSize cell node))"

definition validIndex :: "'a list \<Rightarrow> int option \<Rightarrow> bool" where
  "validIndex array ix =
     (case ix of None \<Rightarrow> False | Some i \<Rightarrow> i \<ge> 0 \<and> i \<le> int (length array) - 1)"

definition findCellIfAlive :: "QuadTree \<Rightarrow> int \<Rightarrow> int \<Rightarrow> error + num Cell" where
  "findCellIfAlive tree r c =
     (case search tree (newCell r c) of
        Inl e \<Rightarrow> Inl e
      | Inr None \<Rightarrow> Inr DeadCell
      | Inr (Some foundLeafNode) \<Rightarrow>
          (if validIndex (leaves tree) (index foundLeafNode)
           then Inr (onGrid (leaves tree ! nat (the (index foundLeafNode))))
           else Inr DeadCell))"

text \<open>\<^verbatim>\<open>findAliveInArea(x, y, xx, yy, currentNode)\<close> below a node that is not null.\<close>

fun findAliveInArea_node :: "int Cell list \<Rightarrow> int \<Rightarrow> int \<Rightarrow> int \<Rightarrow> int \<Rightarrow> QTNode \<Rightarrow> int Cell list" where
  "findAliveInArea_node lvs x y xx yy (Undivided r a i) =
     (if \<not> intersectsAABB (Undivided r a i) x y xx yy then []
      else if validIndex lvs i
           then (let cell = lvs ! nat (the i)
                 in if isInsideRect cell x y xx yy then [cell] else [])
           else [])"
| "findAliveInArea_node lvs x y xx yy (Subdivided r a i ul ur ll lr) =
     (if \<not> intersectsAABB (Subdivided r a i ul ur ll lr) x y xx yy then []
      else (let q1 = findAliveInArea_node lvs x y xx yy ul;
                q2 = findAliveInArea_node lvs x y xx yy ur;
                q3 = findAliveInArea_node lvs x y xx yy ll;
                q4 = findAliveInArea_node lvs x y xx yy lr
            in [] @ q1 @ q2 @ q3 @ q4))"

definition findAliveInArea :: "QuadTree \<Rightarrow> int \<Rightarrow> int \<Rightarrow> int \<Rightarrow> int \<Rightarrow> error + int Cell list" where
  "findAliveInArea tree x y xx yy =
     (case root tree of
        None \<Rightarrow> Inl RangeQueryEmptyNode
      | Some node \<Rightarrow> Inr (findAliveInArea_node (leaves tree) x y xx yy node))"

definition findAliveNeighbors :: "QuadTree \<Rightarrow> int \<Rightarrow> int \<Rightarrow> error + nat" where
  "findAliveNeighbors tree r c =
     (case findAliveInArea tree (r - 1) (c - 1) (r + 1) (c + 1) of
        Inl e \<Rightarrow> Inl e
      | Inr aliveCells \<Rightarrow>
          Inr (foldl (\<lambda>count cell. if \<not> (row cell = r \<and> col cell = c) then count + 1 else count)
                 0 aliveCells))"

section \<open>The game manager\<close>

text \<open>
  The evaluator is the parameter \<^verbatim>\<open>evaluator\<close> of \<^verbatim>\<open>evaluateCells\<close>, by its method
  \<^verbatim>\<open>evaluate(aliveNeighbors, state)\<close>; the seeder is the parameter of \<^verbatim>\<open>seedWorld\<close>, by
  its method \<^verbatim>\<open>seed(width, height)\<close>. The scene that receives the cells for rendering is
  left out.
\<close>

record GameManager =
  landscape_width :: nat
  landscape_height :: nat
  currentTree :: QuadTree
  nextTree :: QuadTree

definition newGameManager :: "nat \<Rightarrow> nat \<Rightarrow> GameManager" where
  "newGameManager w h =
     \<lparr>landscape_width = w, landscape_height = h,
      currentTree = QuadTree_empty, nextTree = QuadTree_empty\<rparr>"

definition seedWorld :: "GameManager \<Rightarrow> (nat \<Rightarrow> nat \<Rightarrow> int Cell list) \<Rightarrow> GameManager option" where
  "seedWorld gm seed =
     (let aliveCells = seed (landscape_width gm) (landscape_height gm)
      in do {
           cur \<leftarrow> QuadTree_index (currentTree gm) (Some aliveCells);
           nxt \<leftarrow> QuadTree_index (nextTree gm) None;
           Some (gm\<lparr>currentTree := cur, nextTree := nxt\<rparr>)
         })"

text \<open>The body of the double loop of \<^verbatim>\<open>evaluateCells\<close> at one position.\<close>

definition evaluateCell ::
  "QuadTree \<Rightarrow> (nat \<Rightarrow> CellState \<Rightarrow> CellState) \<Rightarrow> int \<Rightarrow> int \<Rightarrow> int Cell list \<Rightarrow> error + int Cell list" where
  "evaluateCell tree evaluate r c nextAliveCells =
     (case findAliveNeighbors tree r c of
        Inl e \<Rightarrow> Inl e
      | Inr aliveNeighbors \<Rightarrow>
          (case findCellIfAlive tree r c of
             Inl e \<Rightarrow> Inl e
           | Inr foundCell \<Rightarrow>
               (let nextCellState = evaluate aliveNeighbors (getState foundCell)
                in if nextCellState = ALIVE
                   then Inr (nextAliveCells @ [Cell r c (age foundCell + 1) ALIVE])
                   else Inr nextAliveCells)))"

text \<open>The inner loop over the remaining columns, and the outer loop over the remaining rows.\<close>

fun evaluateCols ::
  "QuadTree \<Rightarrow> (nat \<Rightarrow> CellState \<Rightarrow> CellState) \<Rightarrow> int \<Rightarrow> int list \<Rightarrow> int Cell list \<Rightarrow> error + int Cell list" where
  "evaluateCols tree evaluate r [] nextAliveCells = Inr nextAliveCells"
| "evaluateCols tree evaluate r (c # cs) nextAliveCells =
     (case evaluateCell tree evaluate r c nextAliveCells of
        Inl e \<Rightarrow> Inl e
      | Inr cells \<Rightarrow> evaluateCols tree evaluate r cs cells)"

fun evaluateRows ::
  "QuadTree \<Rightarrow> (nat \<Rightarrow> CellState \<Rightarrow> CellState) \<Rightarrow> int list \<Rightarrow> int list \<Rightarrow> int Cell list \<Rightarrow> error + int Cell list" where
  "evaluateRows tree evaluate [] cs nextAliveCells = Inr nextAliveCells"
| "evaluateRows tree evaluate (r # rs) cs nextAliveCells =
     (case evaluateCols tree evaluate r cs nextAliveCells of
        Inl e \<Rightarrow> Inl e
      | Inr cells \<Rightarrow> evaluateRows tree evaluate rs cs cells)"

text \<open>Step 1 of \<^verbatim>\<open>evaluateCells\<close>: the list of the cells alive in the next generation.\<close>

definition nextGeneration ::
  "GameManager \<Rightarrow> (nat \<Rightarrow> CellState \<Rightarrow> CellState) \<Rightarrow> error + int Cell list" where
  "nextGeneration gm evaluate =
     evaluateRows (currentTree gm) evaluate
       (map int [0..<landscape_width gm]) (map int [0..<landscape_height gm]) []"

text \<open>
  \<^verbatim>\<open>evaluateCells\<close>: \<open>None\<close> when indexing does not return, \<open>Some (Inl e)\<close> when a query
  throws, \<open>Some (Inr gm')\<close> with the updated manager otherwise.
\<close>

definition evaluateCells ::
  "GameManager \<Rightarrow> (nat \<Rightarrow> CellState \<Rightarrow> CellState) \<Rightarrow> (error + GameManager) option" where
  "evaluateCells gm evaluate =
     (case nextGeneration gm evaluate of
        Inl e \<Rightarrow> Some (Inl e)
      | Inr nextAliveCells \<Rightarrow>
          do {
            nxt \<leftarrow> QuadTree_index (clear (nextTree gm)) (Some nextAliveCells);
            Some (Inr (gm\<lparr>nextTree := nxt\<rparr>))
          })"

definition activateNext :: "GameManager \<Rightarrow> GameManager option" where
  "activateNext gm =
     do {
       cur \<leftarrow> QuadTree_clone (Object (nextTree gm));
       nxt \<leftarrow> QuadTree_index (clear (nextTree gm)) None;
       Some (gm\<lparr>currentTree := cur, nextTree := nxt\<rparr>)
     }"

text \<open>The evaluator of the test suite that lets every cell live (it returns 1).\<close>

definition AlwayAliveEvaluator :: "nat \<Rightarrow> CellState \<Rightarrow> CellState" where
  "AlwayAliveEvaluator neighborsCount currentCellState = ALIVE"

section \<open>Notions used in the proofs\<close>

text \<open>The boundary and the root that \<^verbatim>\<open>index\<close> computes from the leaves.\<close>

definition indexBoundary :: "int Cell list \<Rightarrow> AABB" where
  "indexBoundary cells =
     (if length cells > 0
      then (case buildAxisAlignedBoundingBox cells of Inr box \<Rightarrow> box | Inl e \<Rightarrow> emptyAABB)
      else emptyAABB)"

definition indexRoot :: "int Cell list \<Rightarrow> QTNode option" where
  "indexRoot cells =
     addCells minimumCellSize
       (newQTNode (rowMin (indexBoundary cells)) (colMin (indexBoundary cells))
                  (rowMax (indexBoundary cells)) (colMax (indexBoundary cells))) cells 0"

text \<open>
  Trees over cells with coordinates that are not negative. \<open>splitX\<close> and \<open>splitY\<close> are
  the point \<open>(p, q)\<close> of \<^verbatim>\<open>subdivide\<close>. A node is \<open>wellFormed\<close> when its rectangle
  lies in the non-negative quadrant with its corners in order, its stored area is the one
  the constructor computes, it carries an index only with the area 1, and, when it is
  subdivided, its area exceeds 1 and its children are well-formed nodes on the four
  rectangles that \<^verbatim>\<open>subdivide\<close> makes. \<open>entries\<close> collects the rectangle and the index
  of every node that is not subdivided and carries an index. \<open>unitRect\<close> is the unit
  square of a cell, \<open>span\<close> the measure that decreases along \<^verbatim>\<open>addCell\<close>,
  \<open>inserted\<close> what one \<^verbatim>\<open>addCell\<close> does to the entries, and \<open>numbered\<close> the entries
  of a list of cells numbered from a position on.
\<close>

definition splitX :: "Rect \<Rightarrow> int" where
  "splitX r = rect_x r + ceil_half (\<bar>rect_xx r\<bar> - \<bar>rect_x r\<bar>)"

definition splitY :: "Rect \<Rightarrow> int" where
  "splitY r = rect_y r + ceil_half (\<bar>rect_yy r\<bar> - \<bar>rect_y r\<bar>)"

definition onGridRect :: "Rect \<Rightarrow> bool" where
  "onGridRect r = (0 \<le> rect_x r \<and> rect_x r \<le> rect_xx r \<and> 0 \<le> rect_y r \<and> rect_y r \<le> rect_yy r)"

fun wellFormed :: "QTNode \<Rightarrow> bool" where
  "wellFormed (Undivided r a i) = (onGridRect r \<and> a = area_of r \<and> (i = None \<or> a = 1))"
| "wellFormed (Subdivided r a i ul ur ll lr) =
     (onGridRect r \<and> a = area_of r \<and> 1 < a \<and> i = None \<and>
      rect ul = Rect (rect_x r) (rect_y r) (splitX r) (splitY r) \<and>
      rect ur = Rect (splitX r) (rect_y r) (rect_xx r) (splitY r) \<and>
      rect ll = Rect (rect_x r) (splitY r) (splitX r) (rect_yy r) \<and>
      rect lr = Rect (splitX r) (splitY r) (rect_xx r) (rect_yy r) \<and>
      wellFormed ul \<and> wellFormed ur \<and> wellFormed ll \<and> wellFormed lr)"

fun entries :: "QTNode \<Rightarrow> (Rect \<times> int) set" where
  "entries (Undivided r a i) = (case i of None \<Rightarrow> {} | Some j \<Rightarrow> {(r, j)})"
| "entries (Subdivided r a i ul ur ll lr) = entries ul \<union> entries ur \<union> entries ll \<union> entries lr"

definition unitRect :: "int Cell \<Rightarrow> Rect" where
  "unitRect cell = Rect (row cell) (col cell) (row cell + 1) (col cell + 1)"

definition span :: "QTNode \<Rightarrow> nat" where
  "span node = nat ((rect_xx (rect node) - rect_x (rect node)) + (rect_yy (rect node) - rect_y (rect node)))"

definition inserted :: "QTNode \<Rightarrow> int Cell \<Rightarrow> int \<Rightarrow> QTNode \<Rightarrow> bool" where
  "inserted node cell i node' =
     (wellFormed node' \<and> rect node' = rect node \<and>
      entries node' = {e \<in> entries node. fst e \<noteq> unitRect cell} \<union>
                      (if containsRect node cell then {(unitRect cell, i)} else {}))"

fun numbered :: "int \<Rightarrow> int Cell list \<Rightarrow> (Rect \<times> int) set" where
  "numbered i [] = {}"
| "numbered i (cell # cells) = insert (unitRect cell, i) (numbered (i + 1) cells)"

text \<open>All nodes of a tree.\<close>

fun nodes :: "QTNode \<Rightarrow> QTNode set" where
  "nodes (Undivided r a i) = {Undivided r a i}"
| "nodes (Subdivided r a i ul ur ll lr) =
     insert (Subdivided r a i ul ur ll lr) (nodes ul \<union> nodes ur \<union> nodes ll \<union> nodes lr)"

text \<open>
  Concrete states: the tree indexed on no cells, the tree indexed on one cell of age 3
  at \<open>(0, 0)\<close>, and managers of a 1 by 1 and a 2 by 2 landscape over them.
\<close>

definition emptyIndexed :: QuadTree where
  "emptyIndexed =
     \<lparr>leaves = [], root = Some (Undivided (Rect 0 0 0 0) 0 None), boundary = Some (AABB 0 0 0 0)\<rparr>"

definition oneCellIndexed :: QuadTree where
  "oneCellIndexed =
     \<lparr>leaves = [Cell 0 0 3 ALIVE], root = Some (Undivided (Rect 0 0 1 1) 1 (Some 0)),
      boundary = Some (AABB 0 0 1 1)\<rparr>"

definition deadWorld :: GameManager where
  "deadWorld =
     \<lparr>landscape_width = 1, landscape_height = 1,
      currentTree = emptyIndexed, nextTree = emptyIndexed\<rparr>"

definition oneCellWorld :: GameManager where
  "oneCellWorld =
     \<lparr>landscape_width = 2, landscape_height = 2,
      currentTree = oneCellIndexed, nextTree = emptyIndexed\<rparr>"

definition fourCellsIndexed :: QuadTree where
  "fourCellsIndexed =
     \<lparr>leaves = [Cell 0 0 4 ALIVE, Cell 0 1 1 ALIVE, Cell 1 0 1 ALIVE, Cell 1 1 1 ALIVE],
      root = Some (Subdivided (Rect 0 0 2 2) 4 None
                     (Undivided (Rect 0 0 1 1) 1 (Some 0))
                     (Undivided (Rect 1 0 2 1) 1 (Some 2))
                     (Undivided (Rect 0 1 1 2) 1 (Some 1))
                     (Undivided (Rect 1 1 2 2) 1 (Some 3))),
      boundary = Some (AABB 0 0 2 2)\<rparr>"

section \<open>Evaluation helpers\<close>

lemma ceil_half_div: "ceil_half d = (d + 1) div 2"
  unfolding ceil_half_def by linarith

lemma root_clear: "root (clear tree) = None"
  by (simp add: clear_def)

lemma root_newQuadTree: "root (newQuadTree cells) = None"
  by (simp add: newQuadTree_def)

section \<open>The stored area and the split point\<close>

text \<open>
  Claim C6 says that the stored area of a node with bounds \<open>(x, y, xx, yy)\<close> is
  \<open>\<bar>xx - x\<bar> * \<bar>yy - y\<bar>\<close>, also for negative bounds. The constructor stores
  \<open>(\<bar>xx\<bar> - \<bar>x\<bar>) * (\<bar>yy\<bar> - \<bar>y\<bar>)\<close>: for the rectangle from \<open>(-3, 0)\<close> to \<open>(-1, 1)\<close>,
  two units long and one high, it stores \<open>-2\<close>.
\<close>

theorem area_negative_bounds:
  "area (newQTNode (-3) 0 (-1) 1) = -2 \<and> \<bar>(-1) - (-3)\<bar> * \<bar>1 - 0\<bar> = (2::int)"
  by (simp add: newQTNode_def area_of_def)

text \<open>
  Claim C7 says that \<^verbatim>\<open>subdivide\<close> splits at \<open>p = x + ceil((xx - x) / 2)\<close> and
  \<open>q = y + ceil((yy - y) / 2)\<close>, also for negative bounds. The source takes the side lengths
  as \<open>\<bar>xx\<bar> - \<bar>x\<bar>\<close> and \<open>\<bar>yy\<bar> - \<bar>y\<bar>\<close>: the square from \<open>(-3, -3)\<close> to \<open>(-1, -1)\<close>
  is split at \<open>(-4, -4)\<close>, a point outside of it, where the claim has \<open>(-2, -2)\<close>.
\<close>

theorem subdivide_negative_bounds:
  "subdivide (newQTNode (-3) (-3) (-1) (-1)) =
     Subdivided (Rect (-3) (-3) (-1) (-1)) 4 None
       (Undivided (Rect (-3) (-3) (-4) (-4)) 1 None)
       (Undivided (Rect (-4) (-3) (-1) (-4)) (-3) None)
       (Undivided (Rect (-3) (-4) (-4) (-1)) (-3) None)
       (Undivided (Rect (-4) (-4) (-1) (-1)) 9 None)
   \<and> (-3) + ceil_half ((-1) - (-3)) = -2"
  by (simp add: newQTNode_def area_of_def subdivide_def ceil_half_div)

section \<open>Indexing cells with negative coordinates\<close>

text \<open>
  Claim C1 says that after \<^verbatim>\<open>index(L)\<close> every cell of \<open>L\<close> is found by \<^verbatim>\<open>search\<close>.
  For the single cell at \<open>(-1, 0)\<close> the root is the unit square from \<open>(-1, 0)\<close> to
  \<open>(0, 1)\<close> with the stored area \<open>-1\<close>: \<^verbatim>\<open>addCell\<close> makes it the leaf of the cell, and
  \<^verbatim>\<open>search\<close>, which asks for an area equal to 1, returns null for that very cell.
\<close>

theorem search_misses_indexed_cell:
  "QuadTree_index QuadTree_empty (Some [newCell (-1) 0]) =
     Some \<lparr>leaves = [newCell (-1) 0],
            root = Some (Undivided (Rect (-1) 0 0 1) (-1) (Some 0)),
            boundary = Some (AABB (-1) 0 0 1)\<rparr>
   \<and> search \<lparr>leaves = [newCell (-1) 0],
               root = Some (Undivided (Rect (-1) 0 0 1) (-1) (Some 0)),
               boundary = Some (AABB (-1) 0 0 1)\<rparr> (newCell (-1) 0) = Inr None"
  by code_simp

text \<open>
  Claim C2 says that \<^verbatim>\<open>findAliveInArea\<close> returns exactly the cells of \<open>L\<close> inside the
  query rectangle. For the cells at \<open>(-1, -1)\<close> and \<open>(0, 0)\<close> the root, the square from
  \<open>(-1, -1)\<close> to \<open>(1, 1)\<close>, has the stored area 0 and is never subdivided: both cells are
  written to its one index, the second over the first, and the query over
  \<open>(-1, -1, 0, 0)\<close> returns the cell at \<open>(0, 0)\<close> only.
\<close>

theorem range_query_omits_indexed_cell:
  "QuadTree_index QuadTree_empty (Some [newCell (-1) (-1), newCell 0 0]) =
     Some \<lparr>leaves = [newCell (-1) (-1), newCell 0 0],
            root = Some (Undivided (Rect (-1) (-1) 1 1) 0 (Some 1)),
            boundary = Some (AABB (-1) (-1) 1 1)\<rparr>
   \<and> findAliveInArea \<lparr>leaves = [newCell (-1) (-1), newCell 0 0],
            root = Some (Undivided (Rect (-1) (-1) 1 1) 0 (Some 1)),
            boundary = Some (AABB (-1) (-1) 1 1)\<rparr> (-1) (-1) 0 0
       = Inr [newCell 0 0]
   \<and> isInsideRect (newCell (-1) (-1)) (-1) (-1) 0 0"
  by code_simp

section \<open>Queries on a tree without a root\<close>

text \<open>
  Claim C8: on a tree whose root is null, \<^verbatim>\<open>search\<close> and \<^verbatim>\<open>findAliveInArea\<close> both throw
  an error, whatever the cell and the rectangle. (The root is null in a new tree and after
  \<^verbatim>\<open>clear\<close>: lemmas \<open>root_newQuadTree\<close> and \<open>root_clear\<close>.)
\<close>

theorem queries_on_null_root_throw:
  assumes "root tree = None"
  shows "search tree cell = Inl SearchNullTree \<and>
         findAliveInArea tree x y xx yy = Inl RangeQueryEmptyNode"
  using assms by (simp add: search_def findAliveInArea_def)

theorem queries_on_null_root_throw_witness:
  "root (clear (newQuadTree [newCell 2 3])) = None \<and>
   search (clear (newQuadTree [newCell 2 3])) (newCell 2 3) = Inl SearchNullTree \<and>
   findAliveInArea (clear (newQuadTree [newCell 2 3])) 0 0 5 5 = Inl RangeQueryEmptyNode"
  using queries_on_null_root_throw [of "clear (newQuadTree [newCell 2 3])" "newCell 2 3" 0 0 5 5]
  by (simp add: root_clear)

section \<open>Cloning\<close>

text \<open>
  Claim C10: \<^verbatim>\<open>QuadTree.clone\<close> of null or undefined returns an empty tree, with no
  leaves and a null root, and the number of alive cells of that tree is 0.
\<close>

theorem clone_of_null_is_empty:
  "QuadTree_clone Null = Some QuadTree_empty \<and>
   QuadTree_clone Undefined = Some QuadTree_empty \<and>
   leaves QuadTree_empty = [] \<and> root QuadTree_empty = None \<and>
   aliveCellsCount QuadTree_empty = 0"
  by (simp add: QuadTree_clone_def QuadTree_empty_def newQuadTree_def aliveCellsCount_def)

text \<open>
  Claim C5 says that in every tree that \<^verbatim>\<open>index\<close> builds, also from cells with negative
  coordinates, only nodes whose area is 1 carry an index. For the cells at \<open>(-1, -1)\<close> and
  \<open>(0, 0)\<close> the root spans two units each way, has the stored area 0 and carries the
  index 1.
\<close>

theorem index_on_node_of_area_zero:
  "QuadTree_index QuadTree_empty (Some [newCell (-1) (-1), newCell 0 0]) \<bind> root =
     Some (Undivided (Rect (-1) (-1) 1 1) 0 (Some 1))"
  by code_simp

section \<open>Lookups that find no valid leaf\<close>

lemma findAliveInArea_node_valid:
  "\<forall>cell \<in> set (findAliveInArea_node lvs x y xx yy node).
      \<exists>i. validIndex lvs (Some i) \<and> cell = lvs ! nat i"
  by (induction node) (auto simp: Let_def validIndex_def split: option.splits)

lemma findAliveInArea_node_invalid:
  "\<not> validIndex lvs i \<Longrightarrow> findAliveInArea_node lvs x y xx yy (Undivided r a i) = []"
  by simp

text \<open>
  Claim C9: on a tree with a root, \<^verbatim>\<open>findCellIfAlive\<close> returns the dead sentinel (both
  coordinates \<^verbatim>\<open>Infinity\<close>, state DEAD), not null and not an error, when \<^verbatim>\<open>search\<close>
  finds no node and when the index of the node found is not a position of \<^verbatim>\<open>leaves\<close>;
  \<^verbatim>\<open>findAliveInArea\<close> returns a list in which every cell sits at a valid position of
  \<^verbatim>\<open>leaves\<close>, and a node whose index is absent or out of range adds nothing to it.
\<close>

theorem lookup_without_valid_leaf_is_dead:
  assumes "root tree = Some node"
  shows "(search tree (newCell r c) = Inr None \<longrightarrow> findCellIfAlive tree r c = Inr DeadCell)
       \<and> (\<forall>m. search tree (newCell r c) = Inr (Some m) \<longrightarrow> \<not> validIndex (leaves tree) (index m)
              \<longrightarrow> findCellIfAlive tree r c = Inr DeadCell)
       \<and> row DeadCell = Infinity \<and> col DeadCell = Infinity \<and> state DeadCell = DEAD
       \<and> (\<exists>cells. findAliveInArea tree x y xx yy = Inr cells
              \<and> (\<forall>cell \<in> set cells. \<exists>i. validIndex (leaves tree) (Some i) \<and> cell = leaves tree ! nat i))
       \<and> (\<forall>rc a i. \<not> validIndex (leaves tree) i
              \<longrightarrow> findAliveInArea_node (leaves tree) x y xx yy (Undivided rc a i) = [])"
proof -
  have a: "search tree (newCell r c) = Inr None \<longrightarrow> findCellIfAlive tree r c = Inr DeadCell"
    by (simp add: findCellIfAlive_def)
  have b: "\<forall>m. search tree (newCell r c) = Inr (Some m) \<longrightarrow> \<not> validIndex (leaves tree) (index m)
              \<longrightarrow> findCellIfAlive tree r c = Inr DeadCell"
    by (simp add: findCellIfAlive_def)
  have c: "row DeadCell = Infinity \<and> col DeadCell = Infinity \<and> state DeadCell = DEAD"
    by (simp add: DeadCell_def)
  have d: "findAliveInArea tree x y xx yy = Inr (findAliveInArea_node (leaves tree) x y xx yy node)"
    using assms by (simp add: findAliveInArea_def)
  have e: "\<forall>rc a i. \<not> validIndex (leaves tree) i
              \<longrightarrow> findAliveInArea_node (leaves tree) x y xx yy (Undivided rc a i) = []"
    by simp
  from a b c d e findAliveInArea_node_valid [of "leaves tree" x y xx yy node]
  show ?thesis by blast
qed

theorem lookup_without_valid_leaf_is_dead_witness:
  "root \<lparr>leaves = [], root = Some (Undivided (Rect 0 0 1 1) 1 (Some 5)), boundary = None\<rparr>
     = Some (Undivided (Rect 0 0 1 1) 1 (Some 5))
   \<and> search \<lparr>leaves = [], root = Some (Undivided (Rect 0 0 1 1) 1 (Some 5)), boundary = None\<rparr> (newCell 3 3)
     = Inr None
   \<and> findCellIfAlive \<lparr>leaves = [], root = Some (Undivided (Rect 0 0 1 1) 1 (Some 5)), boundary = None\<rparr> 3 3
     = Inr DeadCell
   \<and> search \<lparr>leaves = [], root = Some (Undivided (Rect 0 0 1 1) 1 (Some 5)), boundary = None\<rparr> (newCell 0 0)
     = Inr (Some (Undivided (Rect 0 0 1 1) 1 (Some 5)))
   \<and> \<not> validIndex ([] :: int Cell list) (Some 5)
   \<and> findCellIfAlive \<lparr>leaves = [], root = Some (Undivided (Rect 0 0 1 1) 1 (Some 5)), boundary = None\<rparr> 0 0
     = Inr DeadCell
   \<and> findAliveInArea \<lparr>leaves = [], root = Some (Undivided (Rect 0 0 1 1) 1 (Some 5)), boundary = None\<rparr> 0 0 1 1
     = Inr []"
  using lookup_without_valid_leaf_is_dead
    [of "\<lparr>leaves = [], root = Some (Undivided (Rect 0 0 1 1) 1 (Some 5)), boundary = None\<rparr>"
        "Undivided (Rect 0 0 1 1) 1 (Some 5)" 3 3 0 0 1 1]
  by (simp add: search_def findCellIfAlive_def findAliveInArea_def validIndex_def newCell_def
        containsRect_def containsPoint_def width_def height_def minimumCellSize_def intersectsAABB_def)

section \<open>The next generation\<close>

lemma Cell_clone_id: "Cell_clone cell = cell"
  by (simp add: Cell_clone_def)

lemma evaluateCell_Inr:
  assumes "evaluateCell tree evaluate r c acc = Inr acc'"
  shows "\<exists>n found. findAliveNeighbors tree r c = Inr n \<and> findCellIfAlive tree r c = Inr found \<and>
           acc' = acc @ (if evaluate n (getState found) = ALIVE
                         then [Cell r c (age found + 1) ALIVE] else [])"
  using assms
  by (auto simp: evaluateCell_def Let_def split: sum.splits if_splits)

lemma evaluateCols_Inr:
  assumes "evaluateCols tree evaluate r cs acc = Inr acc'"
  shows "set acc \<subseteq> set acc' \<and>
         (\<forall>c \<in> set cs. \<exists>n found. findAliveNeighbors tree r c = Inr n \<and>
              findCellIfAlive tree r c = Inr found \<and>
              (evaluate n (getState found) = ALIVE \<longrightarrow> Cell r c (age found + 1) ALIVE \<in> set acc')) \<and>
         (\<forall>cell \<in> set acc' - set acc. \<exists>c \<in> set cs. \<exists>n found. findAliveNeighbors tree r c = Inr n \<and>
              findCellIfAlive tree r c = Inr found \<and> evaluate n (getState found) = ALIVE \<and>
              cell = Cell r c (age found + 1) ALIVE)"
  using assms
proof (induction cs arbitrary: acc)
  case Nil
  then show ?case by simp
next
  case (Cons c cs)
  from Cons.prems obtain mid where
    m1: "evaluateCell tree evaluate r c acc = Inr mid" and
    m2: "evaluateCols tree evaluate r cs mid = Inr acc'"
    by (auto split: sum.splits)
  from evaluateCell_Inr [OF m1] obtain n found where
    nf: "findAliveNeighbors tree r c = Inr n" "findCellIfAlive tree r c = Inr found"
        "mid = acc @ (if evaluate n (getState found) = ALIVE
                         then [Cell r c (age found + 1) ALIVE] else [])"
    by blast
  note ih = Cons.IH [OF m2]
  have sub: "set acc \<subseteq> set mid" using nf(3) by auto
  have p1: "set acc \<subseteq> set acc'" using sub ih by blast
  have p2: "\<forall>c' \<in> set (c # cs). \<exists>n found. findAliveNeighbors tree r c' = Inr n \<and>
              findCellIfAlive tree r c' = Inr found \<and>
              (evaluate n (getState found) = ALIVE \<longrightarrow> Cell r c' (age found + 1) ALIVE \<in> set acc')"
  proof
    fix c' assume "c' \<in> set (c # cs)"
    then consider "c' = c" | "c' \<in> set cs" by auto
    then show "\<exists>n found. findAliveNeighbors tree r c' = Inr n \<and>
              findCellIfAlive tree r c' = Inr found \<and>
              (evaluate n (getState found) = ALIVE \<longrightarrow> Cell r c' (age found + 1) ALIVE \<in> set acc')"
    proof cases
      case 1
      have "evaluate n (getState found) = ALIVE \<longrightarrow> Cell r c (age found + 1) ALIVE \<in> set mid"
        using nf(3) by simp
      with ih have "evaluate n (getState found) = ALIVE \<longrightarrow> Cell r c (age found + 1) ALIVE \<in> set acc'"
        by blast
      with nf(1,2) 1 show ?thesis by blast
    next
      case 2
      with ih show ?thesis by blast
    qed
  qed
  have p3: "\<forall>cell \<in> set acc' - set acc. \<exists>c' \<in> set (c # cs). \<exists>n found. findAliveNeighbors tree r c' = Inr n \<and>
              findCellIfAlive tree r c' = Inr found \<and> evaluate n (getState found) = ALIVE \<and>
              cell = Cell r c' (age found + 1) ALIVE"
  proof
    fix cell assume a: "cell \<in> set acc' - set acc"
    show "\<exists>c' \<in> set (c # cs). \<exists>n found. findAliveNeighbors tree r c' = Inr n \<and>
              findCellIfAlive tree r c' = Inr found \<and> evaluate n (getState found) = ALIVE \<and>
              cell = Cell r c' (age found + 1) ALIVE"
    proof (cases "cell \<in> set mid")
      case True
      with a nf(3) have "evaluate n (getState found) = ALIVE \<and> cell = Cell r c (age found + 1) ALIVE"
        by (auto split: if_splits)
      with nf(1,2) show ?thesis by auto
    next
      case False
      with a have "cell \<in> set acc' - set mid" by simp
      with ih obtain c' where "c' \<in> set cs" "\<exists>n found. findAliveNeighbors tree r c' = Inr n \<and>
              findCellIfAlive tree r c' = Inr found \<and> evaluate n (getState found) = ALIVE \<and>
              cell = Cell r c' (age found + 1) ALIVE" by blast
      then show ?thesis by auto
    qed
  qed
  from p1 p2 p3 show ?case by blast
qed


lemma evaluateRows_Inr:
  assumes "evaluateRows tree evaluate rs cs acc = Inr acc'"
  shows "set acc \<subseteq> set acc' \<and>
         (\<forall>r \<in> set rs. \<forall>c \<in> set cs. \<exists>n found. findAliveNeighbors tree r c = Inr n \<and>
              findCellIfAlive tree r c = Inr found \<and>
              (evaluate n (getState found) = ALIVE \<longrightarrow> Cell r c (age found + 1) ALIVE \<in> set acc')) \<and>
         (\<forall>cell \<in> set acc' - set acc. \<exists>r \<in> set rs. \<exists>c \<in> set cs. \<exists>n found.
              findAliveNeighbors tree r c = Inr n \<and>
              findCellIfAlive tree r c = Inr found \<and> evaluate n (getState found) = ALIVE \<and>
              cell = Cell r c (age found + 1) ALIVE)"
  using assms
proof (induction rs arbitrary: acc)
  case Nil
  then show ?case by simp
next
  case (Cons r rs)
  from Cons.prems obtain mid where
    m1: "evaluateCols tree evaluate r cs acc = Inr mid" and
    m2: "evaluateRows tree evaluate rs cs mid = Inr acc'"
    by (auto split: sum.splits)
  note col = evaluateCols_Inr [OF m1]
  note ih = Cons.IH [OF m2]
  have p1: "set acc \<subseteq> set acc'" using col ih by blast
  have p2: "\<forall>r' \<in> set (r # rs). \<forall>c \<in> set cs. \<exists>n found. findAliveNeighbors tree r' c = Inr n \<and>
              findCellIfAlive tree r' c = Inr found \<and>
              (evaluate n (getState found) = ALIVE \<longrightarrow> Cell r' c (age found + 1) ALIVE \<in> set acc')"
  proof (intro ballI)
    fix r' c assume "r' \<in> set (r # rs)" and cin: "c \<in> set cs"
    then consider "r' = r" | "r' \<in> set rs" by auto
    then show "\<exists>n found. findAliveNeighbors tree r' c = Inr n \<and>
              findCellIfAlive tree r' c = Inr found \<and>
              (evaluate n (getState found) = ALIVE \<longrightarrow> Cell r' c (age found + 1) ALIVE \<in> set acc')"
    proof cases
      case 1
      from col cin obtain n found where
        "findAliveNeighbors tree r c = Inr n" "findCellIfAlive tree r c = Inr found"
        "evaluate n (getState found) = ALIVE \<longrightarrow> Cell r c (age found + 1) ALIVE \<in> set mid"
        by blast
      moreover have "set mid \<subseteq> set acc'" using ih by blast
      ultimately show ?thesis using 1 by blast
    next
      case 2
      with ih cin show ?thesis by blast
    qed
  qed
  have p3: "\<forall>cell \<in> set acc' - set acc. \<exists>r' \<in> set (r # rs). \<exists>c \<in> set cs. \<exists>n found.
              findAliveNeighbors tree r' c = Inr n \<and>
              findCellIfAlive tree r' c = Inr found \<and> evaluate n (getState found) = ALIVE \<and>
              cell = Cell r' c (age found + 1) ALIVE"
  proof
    fix cell assume a: "cell \<in> set acc' - set acc"
    show "\<exists>r' \<in> set (r # rs). \<exists>c \<in> set cs. \<exists>n found.
              findAliveNeighbors tree r' c = Inr n \<and>
              findCellIfAlive tree r' c = Inr found \<and> evaluate n (getState found) = ALIVE \<and>
              cell = Cell r' c (age found + 1) ALIVE"
    proof (cases "cell \<in> set mid")
      case True
      with a have "cell \<in> set mid - set acc" by simp
      with col obtain c where "c \<in> set cs" "\<exists>n found. findAliveNeighbors tree r c = Inr n \<and>
              findCellIfAlive tree r c = Inr found \<and> evaluate n (getState found) = ALIVE \<and>
              cell = Cell r c (age found + 1) ALIVE" by blast
      then show ?thesis by auto
    next
      case False
      with a have "cell \<in> set acc' - set mid" by simp
      with ih obtain r' c where "r' \<in> set rs" "c \<in> set cs" "\<exists>n found.
              findAliveNeighbors tree r' c = Inr n \<and>
              findCellIfAlive tree r' c = Inr found \<and> evaluate n (getState found) = ALIVE \<and>
              cell = Cell r' c (age found + 1) ALIVE" by blast
      then show ?thesis by auto
    qed
  qed
  from p1 p2 p3 show ?case by blast
qed

text \<open>
  Claim C3 says that a cell born at a position where the lookup returned the dead sentinel
  gets the age 0. On the 1 by 1 landscape with no alive cell and the evaluator that lets
  every cell live, the lookup at \<open>(0, 0)\<close> returns the sentinel and the cell appended
  has the age 1.
\<close>

theorem newborn_age_counterexample:
  "QuadTree_index QuadTree_empty (Some []) = Some emptyIndexed
   \<and> findCellIfAlive (currentTree deadWorld) 0 0 = Inr DeadCell
   \<and> nextGeneration deadWorld AlwayAliveEvaluator = Inr [Cell 0 0 1 ALIVE]"
  by code_simp

lemma nextGeneration_at:
  assumes "nextGeneration gm evaluate = Inr cells"
    and "r < landscape_width gm" and "c < landscape_height gm"
  shows "\<exists>n found.
           findAliveNeighbors (currentTree gm) (int r) (int c) = Inr n \<and>
           findCellIfAlive (currentTree gm) (int r) (int c) = Inr found \<and>
           (evaluate n (getState found) = ALIVE \<longrightarrow>
              Cell (int r) (int c) (age found + 1) ALIVE \<in> set cells) \<and>
           (\<forall>cell \<in> set cells. row cell = int r \<and> col cell = int c \<longrightarrow>
              age cell = age found + 1 \<and> evaluate n (getState found) = ALIVE) \<and>
           (found = DeadCell \<longrightarrow> age found + 1 = 1)"
proof -
  let ?rs = "map int [0..<landscape_width gm]"
  let ?cs = "map int [0..<landscape_height gm]"
  have run: "evaluateRows (currentTree gm) evaluate ?rs ?cs [] = Inr cells"
    using assms(1) by (simp add: nextGeneration_def)
  note all = evaluateRows_Inr [OF run]
  have rin: "int r \<in> set ?rs" and cin: "int c \<in> set ?cs"
    using assms(2,3) by auto
  from all rin cin obtain n found where
    nf: "findAliveNeighbors (currentTree gm) (int r) (int c) = Inr n"
        "findCellIfAlive (currentTree gm) (int r) (int c) = Inr found"
        "evaluate n (getState found) = ALIVE \<longrightarrow>
              Cell (int r) (int c) (age found + 1) ALIVE \<in> set cells"
    by blast
  have only: "\<forall>cell \<in> set cells. row cell = int r \<and> col cell = int c \<longrightarrow>
              age cell = age found + 1 \<and> evaluate n (getState found) = ALIVE"
  proof (intro ballI impI)
    fix cell assume "cell \<in> set cells" and at: "row cell = int r \<and> col cell = int c"
    then have "cell \<in> set cells - set []" by simp
    with all obtain r' c' n' found' where
      o: "findAliveNeighbors (currentTree gm) r' c' = Inr n'"
         "findCellIfAlive (currentTree gm) r' c' = Inr found'"
         "evaluate n' (getState found') = ALIVE"
         "cell = Cell r' c' (age found' + 1) ALIVE"
      by blast
    from o(4) at have "r' = int r" "c' = int c" by auto
    with o nf show "age cell = age found + 1 \<and> evaluate n (getState found) = ALIVE" by auto
  qed
  have dead: "found = DeadCell \<longrightarrow> age found + 1 = 1"
    by (simp add: DeadCell_def)
  from nf only dead show ?thesis by blast
qed

section \<open>Activating the next generation\<close>

lemma QuadTree_index_unfold:
  "QuadTree_index tree liveCells =
     map_option (\<lambda>r. \<lparr>leaves = (case liveCells of None \<Rightarrow> leaves tree | Some cells \<Rightarrow> cells),
                       root = Some r,
                       boundary = Some (indexBoundary (case liveCells of None \<Rightarrow> leaves tree | Some cells \<Rightarrow> cells))\<rparr>)
       (indexRoot (case liveCells of None \<Rightarrow> leaves tree | Some cells \<Rightarrow> cells))"
proof -
  define cs where "cs = (case liveCells of None \<Rightarrow> leaves tree | Some cells \<Rightarrow> cells)"
  define t1 where "t1 = (case liveCells of None \<Rightarrow> tree | Some cells \<Rightarrow> tree\<lparr>leaves := cells\<rparr>)"
  have l: "leaves t1 = cs"
    by (simp add: cs_def t1_def split: option.splits)
  have r: "t1\<lparr>boundary := Some b, root := Some r\<rparr> = \<lparr>leaves = cs, root = Some r, boundary = Some b\<rparr>"
    for b r
    using l by (cases t1) simp
  have "QuadTree_index tree liveCells =
          indexRoot cs \<bind> (\<lambda>r. Some (t1\<lparr>boundary := Some (indexBoundary cs), root := Some r\<rparr>))"
    unfolding QuadTree_index_def Let_def indexRoot_def indexBoundary_def
    unfolding t1_def [symmetric] l ..
  also have "\<dots> = map_option (\<lambda>r. \<lparr>leaves = cs, root = Some r, boundary = Some (indexBoundary cs)\<rparr>)
                     (indexRoot cs)"
    unfolding r by (cases "indexRoot cs") simp_all
  finally show ?thesis
    unfolding cs_def .
qed

lemma index_clear:
  "QuadTree_index (clear tree) None =
     Some \<lparr>leaves = [], root = Some (newQTNode 0 0 0 0), boundary = Some emptyAABB\<rparr>"
  by (simp add: QuadTree_index_unfold clear_def indexRoot_def indexBoundary_def emptyAABB_def)

lemma index_Some_leaves:
  assumes "QuadTree_index tree (Some cells) = Some tree'"
  shows "leaves tree' = cells"
  using assms by (auto simp: QuadTree_index_unfold)

lemma index_again:
  assumes "QuadTree_index tree (Some cells) = Some tree'"
  shows "QuadTree_index (newQuadTree cells) None = Some tree'"
  using assms by (auto simp: QuadTree_index_unfold newQuadTree_def)

lemma clone_indexed:
  assumes "QuadTree_index tree (Some cells) = Some tree'"
  shows "QuadTree_clone (Object tree') = Some tree'"
proof -
  have "map Cell_clone (leaves tree') = cells"
    using index_Some_leaves [OF assms] by (simp add: Cell_clone_id cong: map_cong)
  then show ?thesis
    using index_again [OF assms] by (simp add: QuadTree_clone_def)
qed

section \<open>Trees over cells of the grid\<close>

lemma containsRect_iff:
  "containsRect node cell \<longleftrightarrow>
     rect_x (rect node) \<le> row cell \<and> row cell + 1 \<le> rect_xx (rect node) \<and>
     rect_y (rect node) \<le> col cell \<and> col cell + 1 \<le> rect_yy (rect node)"
  by (auto simp: containsRect_def containsPoint_def width_def height_def)

lemma ceil_half_bounds:
  "0 \<le> w \<Longrightarrow> 0 \<le> ceil_half w \<and> ceil_half w \<le> w"
  "1 \<le> w \<Longrightarrow> 1 \<le> ceil_half w"
  "2 \<le> w \<Longrightarrow> ceil_half w < w"
  unfolding ceil_half_div by linarith+

lemma area_of_onGrid:
  "onGridRect r \<Longrightarrow> area_of r = (rect_xx r - rect_x r) * (rect_yy r - rect_y r)"
  by (simp add: onGridRect_def area_of_def)

lemma splitX_onGrid: "onGridRect r \<Longrightarrow> splitX r = rect_x r + ceil_half (rect_xx r - rect_x r)"
  by (simp add: onGridRect_def splitX_def)

lemma splitY_onGrid: "onGridRect r \<Longrightarrow> splitY r = rect_y r + ceil_half (rect_yy r - rect_y r)"
  by (simp add: onGridRect_def splitY_def)

lemma product_le_one:
  fixes w h :: int
  assumes "1 \<le> w" "1 \<le> h" "w * h \<le> 1"
  shows "w = 1 \<and> h = 1"
proof -
  have "w * 1 \<le> w * h" using assms(1,2) by (intro mult_left_mono) auto
  with assms(3) have a: "w \<le> 1" by linarith
  have "1 * h \<le> w * h" using assms(1,2) by (intro mult_right_mono) auto
  with assms(3) have b: "h \<le> 1" by linarith
  from a b assms(1,2) show ?thesis by linarith
qed

lemma product_one:
  fixes w h :: int
  assumes "0 \<le> w" "0 \<le> h" "w * h = 1"
  shows "w = 1 \<and> h = 1"
proof -
  have "w \<noteq> 0" "h \<noteq> 0" using assms(3) by auto
  with assms(1,2) have "1 \<le> w" "1 \<le> h" by linarith+
  with assms(3) show ?thesis using product_le_one by simp
qed

lemma product_gt_one:
  fixes w h :: int
  assumes "1 \<le> w" "1 \<le> h" "1 < w * h"
  shows "2 \<le> w \<or> 2 \<le> h"
proof (rule ccontr)
  assume "\<not> (2 \<le> w \<or> 2 \<le> h)"
  then have "w = 1" "h = 1" using assms by auto
  then show False using assms by simp
qed

lemma rect_setLeaf [simp]: "rect (setLeaf node i) = rect node"
  by (cases node) (simp_all add: setLeaf_def)

lemma newQTNode_simps [simp]:
  "rect (newQTNode x y xx yy) = Rect x y xx yy"
  "entries (newQTNode x y xx yy) = {}"
  "wellFormed (newQTNode x y xx yy) = onGridRect (Rect x y xx yy)"
  by (simp_all add: newQTNode_def)

lemma containsRect_cong: "rect a = rect b \<Longrightarrow> containsRect a cell = containsRect b cell"
  by (simp add: containsRect_iff)

lemma split_within:
  assumes "onGridRect r"
  shows "rect_x r \<le> splitX r" "splitX r \<le> rect_xx r" "rect_y r \<le> splitY r" "splitY r \<le> rect_yy r"
  using assms ceil_half_bounds(1) [of "rect_xx r - rect_x r"] ceil_half_bounds(1) [of "rect_yy r - rect_y r"]
  by (simp_all add: splitX_onGrid splitY_onGrid onGridRect_def)

lemma children_onGrid:
  assumes "onGridRect r"
  shows "onGridRect (Rect (rect_x r) (rect_y r) (splitX r) (splitY r))"
        "onGridRect (Rect (splitX r) (rect_y r) (rect_xx r) (splitY r))"
        "onGridRect (Rect (rect_x r) (splitY r) (splitX r) (rect_yy r))"
        "onGridRect (Rect (splitX r) (splitY r) (rect_xx r) (rect_yy r))"
  using assms split_within [OF assms] by (simp_all add: onGridRect_def)

lemma wellFormed_onGrid: "wellFormed node \<Longrightarrow> onGridRect (rect node)"
  by (cases node) simp_all

lemma wellFormed_area: "wellFormed node \<Longrightarrow> area node = area_of (rect node)"
  by (cases node) simp_all

lemma subdivide_Undivided:
  "subdivide (Undivided r a i) =
     Subdivided r a i
       (newQTNode (rect_x r) (rect_y r) (splitX r) (splitY r))
       (newQTNode (splitX r) (rect_y r) (rect_xx r) (splitY r))
       (newQTNode (rect_x r) (splitY r) (splitX r) (rect_yy r))
       (newQTNode (splitX r) (splitY r) (rect_xx r) (rect_yy r))"
  by (simp add: subdivide_def splitX_def splitY_def Let_def)

lemma subdivide_Subdivided [simp]:
  "subdivide (Subdivided r a i ul ur ll lr) = Subdivided r a i ul ur ll lr"
  by (simp add: subdivide_def)

lemma wellFormed_subdivide:
  assumes "wellFormed (Undivided r a i)" "1 < a"
  shows "wellFormed (subdivide (Undivided r a i))"
  using assms children_onGrid [of r] by (auto simp: subdivide_Undivided)

lemma entries_within:
  assumes "wellFormed node" "(R, j) \<in> entries node"
  shows "rect_x (rect node) \<le> rect_x R \<and> rect_xx R \<le> rect_xx (rect node) \<and>
         rect_y (rect node) \<le> rect_y R \<and> rect_yy R \<le> rect_yy (rect node) \<and>
         rect_xx R = rect_x R + 1 \<and> rect_yy R = rect_y R + 1"
  using assms
proof (induction node)
  case (Undivided r a i)
  then have R: "R = r" and a1: "area_of r = 1" and g: "onGridRect r"
    by (auto split: option.splits)
  from g a1 have "(rect_xx r - rect_x r) * (rect_yy r - rect_y r) = 1"
    by (simp add: area_of_onGrid)
  with g have "rect_xx r - rect_x r = 1 \<and> rect_yy r - rect_y r = 1"
    by (intro product_one) (simp_all add: onGridRect_def)
  with R show ?case by simp
next
  case (Subdivided r a i ul ur ll lr)
  from Subdivided.prems(1) have g: "onGridRect r" by simp
  note sw = split_within [OF g]
  from Subdivided.prems(2) consider "(R, j) \<in> entries ul" | "(R, j) \<in> entries ur"
    | "(R, j) \<in> entries ll" | "(R, j) \<in> entries lr" by auto
  then show ?case
  proof cases
    case 1
    with Subdivided.IH(1) Subdivided.prems(1) sw show ?thesis by auto
  next
    case 2
    with Subdivided.IH(2) Subdivided.prems(1) sw show ?thesis by auto
  next
    case 3
    with Subdivided.IH(3) Subdivided.prems(1) sw show ?thesis by auto
  next
    case 4
    with Subdivided.IH(4) Subdivided.prems(1) sw show ?thesis by auto
  qed
qed

lemma entries_contains:
  assumes "wellFormed node" "(unitRect cell, j) \<in> entries node"
  shows "containsRect node cell"
  using entries_within [OF assms] by (simp add: containsRect_iff unitRect_def)

lemma entries_filter_notin:
  assumes "wellFormed node" "\<not> containsRect node cell"
  shows "{e \<in> entries node. fst e \<noteq> unitRect cell} = entries node"
  using entries_contains [OF assms(1)] assms(2) by fastforce

lemma subdivide_keeps [simp]:
  "rect (subdivide node) = rect node"
  "area (subdivide node) = area node"
  "subdivide (subdivide node) = subdivide node"
  by (cases node; simp add: subdivide_Undivided)+

lemma containsRect_subdivide [simp]: "containsRect (subdivide node) cell = containsRect node cell"
  by (simp add: containsRect_iff)

lemma addCell_outside:
  assumes "\<not> containsRect node cell"
  shows "addCell m node cell i = Some node"
  using assms by (subst addCell.simps) simp

lemma addCell_leaf:
  assumes "containsRect node cell" "m \<ge> area node"
  shows "addCell m node cell i = Some (setLeaf node i)"
  using assms by (subst addCell.simps) simp

lemma addCell_subdivide:
  assumes "containsRect node cell" "\<not> m \<ge> area node"
  shows "addCell m node cell i = addCell m (subdivide node) cell i"
proof -
  have l: "addCell m node cell i =
        (case subdivide node of
           Undivided r a ix \<Rightarrow> Some (Undivided r a ix)
         | Subdivided r a ix ul ur ll lr \<Rightarrow>
             do {
               ul' \<leftarrow> addCell m ul cell i;
               ur' \<leftarrow> addCell m ur cell i;
               ll' \<leftarrow> addCell m ll cell i;
               lr' \<leftarrow> addCell m lr cell i;
               Some (Subdivided r a ix ul' ur' ll' lr')
             })"
    using assms by (subst addCell.simps) simp
  have r: "addCell m (subdivide node) cell i =
        (case subdivide node of
           Undivided r a ix \<Rightarrow> Some (Undivided r a ix)
         | Subdivided r a ix ul ur ll lr \<Rightarrow>
             do {
               ul' \<leftarrow> addCell m ul cell i;
               ur' \<leftarrow> addCell m ur cell i;
               ll' \<leftarrow> addCell m ll cell i;
               lr' \<leftarrow> addCell m lr cell i;
               Some (Subdivided r a ix ul' ur' ll' lr')
             })"
    using assms by (subst addCell.simps) simp
  from l r show ?thesis by simp
qed

lemma addCell_Subdivided:
  assumes "containsRect (Subdivided r a ix ul ur ll lr) cell" "\<not> m \<ge> a"
    and "addCell m ul cell i = Some ul'" "addCell m ur cell i = Some ur'"
    and "addCell m ll cell i = Some ll'" "addCell m lr cell i = Some lr'"
  shows "addCell m (Subdivided r a ix ul ur ll lr) cell i = Some (Subdivided r a ix ul' ur' ll' lr')"
  using assms by (subst addCell.simps) simp

lemma some_child_contains:
  assumes "wellFormed (Subdivided r a ix ul ur ll lr)"
    and "containsRect (Subdivided r a ix ul ur ll lr) cell"
  shows "containsRect ul cell \<or> containsRect ur cell \<or> containsRect ll cell \<or> containsRect lr cell"
  using assms by (simp add: containsRect_iff) linarith

lemma inserted_Subdivided:
  assumes wf: "wellFormed (Subdivided r a ix ul ur ll lr)"
    and c: "containsRect (Subdivided r a ix ul ur ll lr) cell"
    and k: "inserted ul cell i ul'" "inserted ur cell i ur'" "inserted ll cell i ll'" "inserted lr cell i lr'"
  shows "inserted (Subdivided r a ix ul ur ll lr) cell i (Subdivided r a ix ul' ur' ll' lr')"
proof -
  have w: "wellFormed (Subdivided r a ix ul' ur' ll' lr')"
    using wf k by (simp add: inserted_def)
  have e: "entries (Subdivided r a ix ul' ur' ll' lr') =
           {e \<in> entries (Subdivided r a ix ul ur ll lr). fst e \<noteq> unitRect cell} \<union> {(unitRect cell, i)}"
    using k some_child_contains [OF wf c] by (auto simp: inserted_def split: if_splits)
  from w e c show ?thesis by (simp add: inserted_def)
qed

lemma children_span:
  assumes wf: "wellFormed (Subdivided r a ix ul ur ll lr)"
    and c: "containsRect (Subdivided r a ix ul ur ll lr) cell"
  shows "span ul < span (Subdivided r a ix ul ur ll lr)"
        "span ur < span (Subdivided r a ix ul ur ll lr)"
        "span ll < span (Subdivided r a ix ul ur ll lr)"
        "span lr < span (Subdivided r a ix ul ur ll lr)"
proof -
  define w h where "w = rect_xx r - rect_x r" and "h = rect_yy r - rect_y r"
  from wf have g: "onGridRect r" by simp
  from c have w1: "1 \<le> w" and h1: "1 \<le> h"
    by (simp_all add: containsRect_iff w_def h_def)
  from wf g have "1 < w * h" by (simp add: area_of_onGrid w_def h_def)
  with w1 h1 have big: "2 \<le> w \<or> 2 \<le> h" by (rule product_gt_one)
  have sx: "splitX r = rect_x r + ceil_half w" and sy: "splitY r = rect_y r + ceil_half h"
    using g by (simp_all add: splitX_onGrid splitY_onGrid w_def h_def)
  note cw = ceil_half_bounds(1) [of w] ceil_half_bounds(2) [OF w1] ceil_half_bounds(3) [of w]
  note ch = ceil_half_bounds(1) [of h] ceil_half_bounds(2) [OF h1] ceil_half_bounds(3) [of h]
  from wf have r: "rect ul = Rect (rect_x r) (rect_y r) (splitX r) (splitY r)"
      "rect ur = Rect (splitX r) (rect_y r) (rect_xx r) (splitY r)"
      "rect ll = Rect (rect_x r) (splitY r) (splitX r) (rect_yy r)"
      "rect lr = Rect (splitX r) (splitY r) (rect_xx r) (rect_yy r)" by simp_all
  show "span ul < span (Subdivided r a ix ul ur ll lr)"
    using big w1 h1 cw ch unfolding span_def r sx sy by (simp add: w_def h_def; linarith)
  show "span ur < span (Subdivided r a ix ul ur ll lr)"
    using big w1 h1 cw ch unfolding span_def r sx sy by (simp add: w_def h_def; linarith)
  show "span ll < span (Subdivided r a ix ul ur ll lr)"
    using big w1 h1 cw ch unfolding span_def r sx sy by (simp add: w_def h_def; linarith)
  show "span lr < span (Subdivided r a ix ul ur ll lr)"
    using big w1 h1 cw ch unfolding span_def r sx sy by (simp add: w_def h_def; linarith)
qed

lemma inserted_leaf:
  assumes wf: "wellFormed node" and c: "containsRect node cell" and a: "minimumCellSize \<ge> area node"
  shows "inserted node cell i (setLeaf node i)"
proof -
  from wf have g: "onGridRect (rect node)" by (rule wellFormed_onGrid)
  from a wf obtain r ar ix where n: "node = Undivided r ar ix"
    by (cases node) (auto simp: minimumCellSize_def)
  define w h where "w = rect_xx r - rect_x r" and "h = rect_yy r - rect_y r"
  from c n have w1: "1 \<le> w" and h1: "1 \<le> h"
    by (simp_all add: containsRect_iff w_def h_def)
  from a wf n g have "w * h \<le> 1"
    by (simp add: area_of_onGrid w_def h_def minimumCellSize_def)
  with w1 h1 have wh: "w = 1 \<and> h = 1" by (rule product_le_one)
  with c n have u: "r = unitRect cell"
    by (cases r) (simp add: containsRect_iff unitRect_def w_def h_def)
  from wh wf n g have a1: "ar = 1"
    by (simp add: area_of_onGrid w_def h_def)
  have w': "wellFormed (setLeaf node i)"
    using wf n a1 by (simp add: setLeaf_def)
  have e: "entries (setLeaf node i) = {(unitRect cell, i)}"
    using n u by (simp add: setLeaf_def)
  have f: "{e \<in> entries node. fst e \<noteq> unitRect cell} = {}"
    using n u by (auto split: option.splits)
  show ?thesis by (simp add: inserted_def w' e f c)
qed

lemma inserted_cong:
  assumes "rect a = rect b" "entries a = entries b" "inserted b cell i k"
  shows "inserted a cell i k"
  using assms containsRect_cong [OF assms(1), of cell] by (simp add: inserted_def)

lemma addCell_inserted:
  assumes "wellFormed node"
  shows "\<exists>node'. addCell minimumCellSize node cell i = Some node' \<and> inserted node cell i node'"
  using assms
proof (induction "span node" arbitrary: node rule: less_induct)
  case less
  show ?case
  proof (cases "containsRect node cell")
    case False
    then have "addCell minimumCellSize node cell i = Some node"
      by (rule addCell_outside)
    moreover have "inserted node cell i node"
      using False less.prems entries_filter_notin [OF less.prems False]
      by (simp add: inserted_def)
    ultimately show ?thesis by blast
  next
    case True
    show ?thesis
    proof (cases "minimumCellSize \<ge> area node")
      case small: True
      from addCell_leaf [OF True small] inserted_leaf [OF less.prems True small]
      show ?thesis by blast
    next
      case big: False
      then have a1: "1 < area node" by (simp add: minimumCellSize_def)
      obtain r a ix ul ur ll lr where s: "subdivide node = Subdivided r a ix ul ur ll lr"
        by (cases node) (auto simp: subdivide_Undivided)
      have wfs: "wellFormed (subdivide node)"
      proof (cases node)
        case (Undivided r0 a0 i0)
        with less.prems a1 have "wellFormed (Undivided r0 a0 i0)" "1 < a0" by auto
        then have "wellFormed (subdivide (Undivided r0 a0 i0))" by (rule wellFormed_subdivide)
        with Undivided show ?thesis by simp
      next
        case Subdivided
        with less.prems show ?thesis by simp
      qed
      have es: "entries (subdivide node) = entries node"
      proof (cases node)
        case (Undivided r0 a0 i0)
        with less.prems a1 have "i0 = None" by auto
        with Undivided show ?thesis by (simp add: subdivide_Undivided)
      next
        case Subdivided
        then show ?thesis by simp
      qed
      have cs: "containsRect (Subdivided r a ix ul ur ll lr) cell"
        using True s containsRect_subdivide [of node cell] by simp
      have wf4: "wellFormed (Subdivided r a ix ul ur ll lr)"
        using wfs s by simp
      have sp: "span (Subdivided r a ix ul ur ll lr) = span node"
        using s subdivide_keeps(1) [of node] by (simp add: span_def)
      note cspan = children_span [OF wf4 cs, unfolded sp]
      from wf4 have kwf: "wellFormed ul" "wellFormed ur" "wellFormed ll" "wellFormed lr"
        by simp_all
      from less.hyps [OF cspan(1) kwf(1)] obtain ul' where
        1: "addCell minimumCellSize ul cell i = Some ul'" "inserted ul cell i ul'" by blast
      from less.hyps [OF cspan(2) kwf(2)] obtain ur' where
        2: "addCell minimumCellSize ur cell i = Some ur'" "inserted ur cell i ur'" by blast
      from less.hyps [OF cspan(3) kwf(3)] obtain ll' where
        3: "addCell minimumCellSize ll cell i = Some ll'" "inserted ll cell i ll'" by blast
      from less.hyps [OF cspan(4) kwf(4)] obtain lr' where
        4: "addCell minimumCellSize lr cell i = Some lr'" "inserted lr cell i lr'" by blast
      have as: "a = area node"
        using s subdivide_keeps(2) [of node] by simp
      have run: "addCell minimumCellSize node cell i = Some (Subdivided r a ix ul' ur' ll' lr')"
        using addCell_subdivide [OF True big, of i] s
          addCell_Subdivided [OF cs _ 1(1) 2(1) 3(1) 4(1)] big as by simp
      have ins: "inserted (Subdivided r a ix ul ur ll lr) cell i (Subdivided r a ix ul' ur' ll' lr')"
        by (rule inserted_Subdivided [OF wf4 cs 1(2) 2(2) 3(2) 4(2)])
      have "inserted node cell i (Subdivided r a ix ul' ur' ll' lr')"
      proof (rule inserted_cong [OF _ _ ins])
        show "rect node = rect (Subdivided r a ix ul ur ll lr)"
          using s subdivide_keeps(1) [of node] by simp
        show "entries node = entries (Subdivided r a ix ul ur ll lr)"
          using es s by simp
      qed
      with run show ?thesis by blast
    qed
  qed
qed

lemma numbered_iff:
  "(R, j) \<in> numbered i cells \<longleftrightarrow> (\<exists>k < length cells. R = unitRect (cells ! k) \<and> j = i + int k)"
proof (induction cells arbitrary: i)
  case Nil
  then show ?case by simp
next
  case (Cons c cs)
  show ?case
  proof
    assume "(R, j) \<in> numbered i (c # cs)"
    then consider "R = unitRect c \<and> j = i" | "(R, j) \<in> numbered (i + 1) cs" by auto
    then show "\<exists>k < length (c # cs). R = unitRect ((c # cs) ! k) \<and> j = i + int k"
    proof cases
      case 1
      then have "0 < length (c # cs) \<and> R = unitRect ((c # cs) ! 0) \<and> j = i + int 0" by simp
      then show ?thesis by blast
    next
      case 2
      with Cons.IH obtain k where "k < length cs" "R = unitRect (cs ! k)" "j = i + 1 + int k"
        by blast
      then have "Suc k < length (c # cs) \<and> R = unitRect ((c # cs) ! Suc k) \<and> j = i + int (Suc k)"
        by simp
      then show ?thesis by blast
    qed
  next
    assume "\<exists>k < length (c # cs). R = unitRect ((c # cs) ! k) \<and> j = i + int k"
    then obtain k where k: "k < length (c # cs)" "R = unitRect ((c # cs) ! k)" "j = i + int k"
      by blast
    show "(R, j) \<in> numbered i (c # cs)"
    proof (cases k)
      case 0
      with k show ?thesis by simp
    next
      case (Suc k')
      with k have "k' < length cs \<and> R = unitRect (cs ! k') \<and> j = i + 1 + int k'" by simp
      with Cons.IH have "(R, j) \<in> numbered (i + 1) cs" by blast
      then show ?thesis by simp
    qed
  qed
qed

lemma numbered_fst: "e \<in> numbered i cells \<Longrightarrow> fst e \<in> unitRect ` set cells"
  by (cases e) (auto simp: numbered_iff)

lemma addCells_wellFormed:
  assumes "wellFormed node"
  shows "\<exists>node'. addCells minimumCellSize node cells i = Some node' \<and>
           wellFormed node' \<and> rect node' = rect node"
  using assms
proof (induction cells arbitrary: node i)
  case Nil
  then show ?case by simp
next
  case (Cons c cs)
  from addCell_inserted [OF Cons.prems, of c i] obtain n1 where
    n1: "addCell minimumCellSize node c i = Some n1" "inserted node c i n1" by blast
  then have w1: "wellFormed n1" and r1: "rect n1 = rect node" by (simp_all add: inserted_def)
  from Cons.IH [OF w1, of "i + 1"] obtain n2 where
    "addCells minimumCellSize n1 cs (i + 1) = Some n2" "wellFormed n2" "rect n2 = rect n1" by blast
  with n1(1) r1 show ?case by simp
qed

lemma addCells_entries:
  assumes "wellFormed node"
    and "\<forall>c \<in> set cells. containsRect node c"
    and "distinct (map unitRect cells)"
    and "\<forall>e \<in> entries node. fst e \<notin> unitRect ` set cells"
  shows "\<exists>node'. addCells minimumCellSize node cells i = Some node' \<and>
           wellFormed node' \<and> rect node' = rect node \<and>
           entries node' = entries node \<union> numbered i cells"
  using assms
proof (induction cells arbitrary: node i)
  case Nil
  then show ?case by simp
next
  case (Cons c cs)
  from addCell_inserted [OF Cons.prems(1), of c i] obtain n1 where
    n1: "addCell minimumCellSize node c i = Some n1" "inserted node c i n1" by blast
  then have w1: "wellFormed n1" and r1: "rect n1 = rect node" by (simp_all add: inserted_def)
  have keep: "{e \<in> entries node. fst e \<noteq> unitRect c} = entries node"
    using Cons.prems(4) by auto
  have e1: "entries n1 = insert (unitRect c, i) (entries node)"
    using n1(2) Cons.prems(2) keep by (simp add: inserted_def)
  have c1: "\<forall>c' \<in> set cs. containsRect n1 c'"
    using Cons.prems(2) containsRect_cong [OF r1] by simp
  have d1: "distinct (map unitRect cs)"
    using Cons.prems(3) by simp
  have f1: "\<forall>e \<in> entries n1. fst e \<notin> unitRect ` set cs"
    using Cons.prems(3,4) e1 by auto
  from Cons.IH [OF w1 c1 d1 f1, of "i + 1"] obtain n2 where
    n2: "addCells minimumCellSize n1 cs (i + 1) = Some n2" "wellFormed n2" "rect n2 = rect n1"
        "entries n2 = entries n1 \<union> numbered (i + 1) cs" by blast
  have "entries n2 = entries node \<union> numbered i (c # cs)"
    using n2(4) e1 by auto
  with n1(1) n2(1,2,3) r1 show ?case by simp
qed

lemma extendBounds_tuple:
  "extendBounds cell (a, b, c, d) = (min a (row cell), max b (row cell), min c (col cell), max d (col cell))"
  by (simp add: extendBounds_def)

lemma fold_extendBounds:
  assumes "fold extendBounds cells (a, b, c, d) = (a', b', c', d')"
  shows "a' \<le> a \<and> b \<le> b' \<and> c' \<le> c \<and> d \<le> d' \<and>
         (\<forall>cell \<in> set cells. a' \<le> row cell \<and> row cell \<le> b' \<and> c' \<le> col cell \<and> col cell \<le> d') \<and>
         (0 \<le> a \<and> 0 \<le> c \<and> (\<forall>cell \<in> set cells. 0 \<le> row cell \<and> 0 \<le> col cell) \<longrightarrow> 0 \<le> a' \<and> 0 \<le> c')"
  using assms
proof (induction cells arbitrary: a b c d)
  case Nil
  then show ?case by simp
next
  case (Cons x xs)
  from Cons.prems have
    "fold extendBounds xs (min a (row x), max b (row x), min c (col x), max d (col x)) = (a', b', c', d')"
    by (simp add: extendBounds_tuple)
  from Cons.IH [OF this] show ?case by auto
qed

lemma indexBoundary_onGrid:
  assumes "\<forall>cell \<in> set cells. 0 \<le> row cell \<and> 0 \<le> col cell"
  shows "onGridRect (Rect (rowMin (indexBoundary cells)) (colMin (indexBoundary cells))
                          (rowMax (indexBoundary cells)) (colMax (indexBoundary cells))) \<and>
         (\<forall>cell \<in> set cells. containsRect
             (newQTNode (rowMin (indexBoundary cells)) (colMin (indexBoundary cells))
                        (rowMax (indexBoundary cells)) (colMax (indexBoundary cells))) cell)"
proof (cases cells)
  case Nil
  then show ?thesis by (simp add: indexBoundary_def emptyAABB_def onGridRect_def)
next
  case (Cons c0 rest)
  obtain a' b' c' d' where f: "fold extendBounds cells (row c0, row c0, col c0, col c0) = (a', b', c', d')"
    by (metis prod_cases4)
  have b: "indexBoundary cells = AABB a' c' (b' + 1) (d' + 1)"
    using f Cons by (simp add: indexBoundary_def buildAxisAlignedBoundingBox_def)
  have c0: "0 \<le> row c0 \<and> 0 \<le> col c0" using assms Cons by simp
  from fold_extendBounds [OF f] assms c0 have
    p: "a' \<le> row c0" "row c0 \<le> b'" "c' \<le> col c0" "col c0 \<le> d'" "0 \<le> a'" "0 \<le> c'"
       "\<forall>cell \<in> set cells. a' \<le> row cell \<and> row cell \<le> b' \<and> c' \<le> col cell \<and> col cell \<le> d'"
    by simp_all
  show ?thesis
    unfolding b using p by (auto simp: onGridRect_def containsRect_iff)
qed

lemma indexRoot_onGrid:
  assumes "\<forall>cell \<in> set cells. 0 \<le> row cell \<and> 0 \<le> col cell"
  shows "\<exists>r. indexRoot cells = Some r \<and> wellFormed r \<and>
             (distinct (map unitRect cells) \<longrightarrow> entries r = numbered 0 cells)"
proof -
  define r0 where "r0 = newQTNode (rowMin (indexBoundary cells)) (colMin (indexBoundary cells))
                        (rowMax (indexBoundary cells)) (colMax (indexBoundary cells))"
  from indexBoundary_onGrid [OF assms] have w0: "wellFormed r0"
    and c0: "\<forall>cell \<in> set cells. containsRect r0 cell"
    by (simp_all add: r0_def)
  have e0: "entries r0 = {}" by (simp add: r0_def)
  show ?thesis
  proof (cases "distinct (map unitRect cells)")
    case True
    from addCells_entries [OF w0 c0 True, of 0] e0 obtain r where
      "addCells minimumCellSize r0 cells 0 = Some r" "wellFormed r" "entries r = numbered 0 cells"
      by auto
    then show ?thesis by (auto simp: indexRoot_def r0_def)
  next
    case False
    from addCells_wellFormed [OF w0, of cells 0] obtain r where
      "addCells minimumCellSize r0 cells 0 = Some r" "wellFormed r" by blast
    with False show ?thesis by (auto simp: indexRoot_def r0_def)
  qed
qed

lemma unitRect_eq: "unitRect a = unitRect b \<longleftrightarrow> row a = row b \<and> col a = col b"
  by (auto simp: unitRect_def)

lemma distinct_unitRect:
  "distinct (map unitRect cells) \<longleftrightarrow> distinct (map (\<lambda>cell. (row cell, col cell)) cells)"
  by (simp add: distinct_map inj_on_def unitRect_eq)

lemma unit_of_area_one:
  assumes "onGridRect r" "area_of r = 1" "containsRect (Undivided r a ix) cell"
  shows "r = unitRect cell"
proof -
  from assms(1,2) have "(rect_xx r - rect_x r) * (rect_yy r - rect_y r) = 1"
    by (simp add: area_of_onGrid)
  with assms(1) have "rect_xx r - rect_x r = 1 \<and> rect_yy r - rect_y r = 1"
    by (intro product_one) (simp_all add: onGridRect_def)
  with assms(3) show ?thesis
    by (cases r) (simp add: containsRect_iff unitRect_def)
qed

lemma search_node_entries:
  assumes "wellFormed node"
  shows "case search_node minimumCellSize q node of
           None \<Rightarrow> \<forall>j. (unitRect q, j) \<notin> entries node
         | Some m \<Rightarrow> \<exists>j. index m = Some j \<and> (unitRect q, j) \<in> entries node"
  using assms
proof (induction node)
  case (Undivided r a ix)
  show ?case
  proof (cases "a = 1 \<and> containsRect (Undivided r a ix) q")
    case True
    with Undivided have "r = unitRect q"
      using unit_of_area_one [of r a ix q] by auto
    with True show ?thesis
      by (auto simp: minimumCellSize_def)
  next
    case False
    have "(unitRect q, j) \<notin> entries (Undivided r a ix)" for j
    proof
      assume e: "(unitRect q, j) \<in> entries (Undivided r a ix)"
      from entries_contains [OF Undivided e] have "containsRect (Undivided r a ix) q" .
      moreover from e Undivided have "a = 1" by (auto split: option.splits)
      ultimately show False using False by simp
    qed
    with False show ?thesis
      by (auto simp: minimumCellSize_def)
  qed
next
  case (Subdivided r a ix ul ur ll lr)
  from Subdivided.prems have wf: "wellFormed ul" "wellFormed ur" "wellFormed ll" "wellFormed lr"
    and a: "a \<noteq> 1"
    and rs: "rect ul = Rect (rect_x r) (rect_y r) (splitX r) (splitY r)"
            "rect ur = Rect (splitX r) (rect_y r) (rect_xx r) (splitY r)"
            "rect ll = Rect (rect_x r) (splitY r) (splitX r) (rect_yy r)"
            "rect lr = Rect (splitX r) (splitY r) (rect_xx r) (rect_yy r)"
    by simp_all
  have out: "(unitRect q, j) \<in> entries k \<Longrightarrow> wellFormed k \<Longrightarrow> containsRect k q" for j k
    using entries_contains by blast
  have nul: "\<not> (row q + 1 \<le> splitX r \<and> col q + 1 \<le> splitY r) \<Longrightarrow> (unitRect q, j) \<notin> entries ul" for j
    using out [of j ul] wf(1) rs(1) by (auto simp: containsRect_iff)
  have nur: "\<not> (\<not> row q + 1 \<le> splitX r \<and> col q + 1 \<le> splitY r) \<Longrightarrow> (unitRect q, j) \<notin> entries ur" for j
    using out [of j ur] wf(2) rs(2) by (auto simp: containsRect_iff)
  have nll: "\<not> (row q + 1 \<le> splitX r \<and> \<not> col q + 1 \<le> splitY r) \<Longrightarrow> (unitRect q, j) \<notin> entries ll" for j
    using out [of j ll] wf(3) rs(3) by (auto simp: containsRect_iff)
  have nlr: "\<not> (\<not> row q + 1 \<le> splitX r \<and> \<not> col q + 1 \<le> splitY r) \<Longrightarrow> (unitRect q, j) \<notin> entries lr" for j
    using out [of j lr] wf(4) rs(4) by (auto simp: containsRect_iff)
  consider (ul) "row q + 1 \<le> splitX r" "col q + 1 \<le> splitY r"
    | (ll) "row q + 1 \<le> splitX r" "\<not> col q + 1 \<le> splitY r"
    | (ur) "\<not> row q + 1 \<le> splitX r" "col q + 1 \<le> splitY r"
    | (lr) "\<not> row q + 1 \<le> splitX r" "\<not> col q + 1 \<le> splitY r"
    by blast
  then show ?case
  proof cases
    case ul
    then have s: "search_node minimumCellSize q (Subdivided r a ix ul ur ll lr) = search_node minimumCellSize q ul"
      using a rs by (simp add: minimumCellSize_def width_def height_def)
    have e: "(unitRect q, j) \<in> entries (Subdivided r a ix ul ur ll lr) \<longleftrightarrow> (unitRect q, j) \<in> entries ul" for j
      using ul nur [of j] nll [of j] nlr [of j] by auto
    from Subdivided.IH(1) [OF wf(1)] show ?thesis
      unfolding s e by (simp split: option.splits)
  next
    case ll
    then have s: "search_node minimumCellSize q (Subdivided r a ix ul ur ll lr) = search_node minimumCellSize q ll"
      using a rs by (simp add: minimumCellSize_def width_def height_def)
    have e: "(unitRect q, j) \<in> entries (Subdivided r a ix ul ur ll lr) \<longleftrightarrow> (unitRect q, j) \<in> entries ll" for j
      using ll nul [of j] nur [of j] nlr [of j] by auto
    from Subdivided.IH(3) [OF wf(3)] show ?thesis
      unfolding s e by (simp split: option.splits)
  next
    case ur
    then have s: "search_node minimumCellSize q (Subdivided r a ix ul ur ll lr) = search_node minimumCellSize q ur"
      using a rs by (simp add: minimumCellSize_def width_def height_def)
    have e: "(unitRect q, j) \<in> entries (Subdivided r a ix ul ur ll lr) \<longleftrightarrow> (unitRect q, j) \<in> entries ur" for j
      using ur nul [of j] nll [of j] nlr [of j] by auto
    from Subdivided.IH(2) [OF wf(2)] show ?thesis
      unfolding s e by (simp split: option.splits)
  next
    case lr
    then have s: "search_node minimumCellSize q (Subdivided r a ix ul ur ll lr) = search_node minimumCellSize q lr"
      using a rs by (simp add: minimumCellSize_def width_def height_def)
    have e: "(unitRect q, j) \<in> entries (Subdivided r a ix ul ur ll lr) \<longleftrightarrow> (unitRect q, j) \<in> entries lr" for j
      using lr nul [of j] nur [of j] nll [of j] by auto
    from Subdivided.IH(4) [OF wf(4)] show ?thesis
      unfolding s e by (simp split: option.splits)
  qed
qed

lemma inside_intersects:
  assumes "wellFormed node" "(unitRect cell, j) \<in> entries node" "isInsideRect cell x y xx yy"
  shows "intersectsAABB node x y xx yy"
  using entries_within [OF assms(1,2)] assms(3)
  by (simp add: intersectsAABB_def isInsideRect_def unitRect_def)

lemma findAliveInArea_node_entries:
  assumes "wellFormed node"
    and "\<forall>e \<in> entries node. 0 \<le> snd e \<and> snd e < int (length lvs) \<and> fst e = unitRect (lvs ! nat (snd e))"
  shows "set (findAliveInArea_node lvs x y xx yy node) =
           {cell. \<exists>R j. (R, j) \<in> entries node \<and> cell = lvs ! nat j \<and> isInsideRect cell x y xx yy}"
  using assms
proof (induction node)
  case (Undivided r a ix)
  show ?case
  proof (cases ix)
    case None
    then show ?thesis by (simp add: validIndex_def)
  next
    case (Some j)
    with Undivided.prems(2) have v: "0 \<le> j" "j < int (length lvs)" "r = unitRect (lvs ! nat j)"
      by simp_all
    then have valid: "validIndex lvs (Some j)" by (simp add: validIndex_def)
    have e: "(unitRect (lvs ! nat j), j) \<in> entries (Undivided r a ix)"
      using Some v(3) by simp
    show ?thesis
    proof (cases "isInsideRect (lvs ! nat j) x y xx yy")
      case True
      from inside_intersects [OF Undivided.prems(1) e True]
      show ?thesis using Some valid True by auto
    next
      case False
      then show ?thesis using Some valid by auto
    qed
  qed
next
  case (Subdivided r a ix ul ur ll lr)
  from Subdivided.prems(1) have wf: "wellFormed ul" "wellFormed ur" "wellFormed ll" "wellFormed lr"
    by simp_all
  from Subdivided.prems(2) have
    v: "\<forall>e \<in> entries ul. 0 \<le> snd e \<and> snd e < int (length lvs) \<and> fst e = unitRect (lvs ! nat (snd e))"
       "\<forall>e \<in> entries ur. 0 \<le> snd e \<and> snd e < int (length lvs) \<and> fst e = unitRect (lvs ! nat (snd e))"
       "\<forall>e \<in> entries ll. 0 \<le> snd e \<and> snd e < int (length lvs) \<and> fst e = unitRect (lvs ! nat (snd e))"
       "\<forall>e \<in> entries lr. 0 \<le> snd e \<and> snd e < int (length lvs) \<and> fst e = unitRect (lvs ! nat (snd e))"
    by simp_all
  note ih = Subdivided.IH(1) [OF wf(1) v(1)] Subdivided.IH(2) [OF wf(2) v(2)]
            Subdivided.IH(3) [OF wf(3) v(3)] Subdivided.IH(4) [OF wf(4) v(4)]
  show ?case
  proof (cases "intersectsAABB (Subdivided r a ix ul ur ll lr) x y xx yy")
    case True
    then have "set (findAliveInArea_node lvs x y xx yy (Subdivided r a ix ul ur ll lr)) =
        set (findAliveInArea_node lvs x y xx yy ul) \<union> set (findAliveInArea_node lvs x y xx yy ur) \<union>
        set (findAliveInArea_node lvs x y xx yy ll) \<union> set (findAliveInArea_node lvs x y xx yy lr)"
      by (simp add: Let_def Un_assoc)
    also have "\<dots> = {cell. \<exists>R j. (R, j) \<in> entries (Subdivided r a ix ul ur ll lr) \<and>
                           cell = lvs ! nat j \<and> isInsideRect cell x y xx yy}"
      unfolding ih by auto
    finally show ?thesis .
  next
    case False
    have "\<not> isInsideRect (lvs ! nat j) x y xx yy"
      if "(R, j) \<in> entries (Subdivided r a ix ul ur ll lr)" for R j
    proof
      assume i: "isInsideRect (lvs ! nat j) x y xx yy"
      from that Subdivided.prems(2) have "R = unitRect (lvs ! nat j)" by force
      with that inside_intersects [OF Subdivided.prems(1) _ i] False show False by blast
    qed
    with False show ?thesis by auto
  qed
qed

lemma QuadTree_index_onGrid:
  assumes "\<forall>cell \<in> set cells. 0 \<le> row cell \<and> 0 \<le> col cell"
    and "distinct (map (\<lambda>cell. (row cell, col cell)) cells)"
  shows "\<exists>r. QuadTree_index tree (Some cells) =
               Some \<lparr>leaves = cells, root = Some r, boundary = Some (indexBoundary cells)\<rparr> \<and>
             wellFormed r \<and> entries r = numbered 0 cells"
proof -
  from assms(2) have "distinct (map unitRect cells)" by (simp add: distinct_unitRect)
  with indexRoot_onGrid [OF assms(1)] obtain r where
    "indexRoot cells = Some r" "wellFormed r" "entries r = numbered 0 cells" by blast
  then show ?thesis by (simp add: QuadTree_index_unfold)
qed

lemma numbered_nth:
  assumes "distinct (map unitRect cells)" "k < length cells" "unitRect q = unitRect (cells ! k)"
  shows "(unitRect q, j) \<in> numbered 0 cells \<longleftrightarrow> j = int k"
proof
  assume "(unitRect q, j) \<in> numbered 0 cells"
  then obtain k' where k': "k' < length cells" "unitRect q = unitRect (cells ! k')" "j = int k'"
    by (auto simp: numbered_iff)
  with assms(2,3) have "map unitRect cells ! k' = map unitRect cells ! k" by simp
  moreover have "k' < length (map unitRect cells)" "k < length (map unitRect cells)"
    using assms(2) k'(1) by simp_all
  ultimately have "k' = k" using assms(1) nth_eq_iff_index_eq by blast
  with k'(3) show "j = int k" by simp
next
  assume "j = int k"
  with assms(2,3) show "(unitRect q, j) \<in> numbered 0 cells" by (auto simp: numbered_iff)
qed

lemma search_indexed_present:
  assumes "wellFormed r" "entries r = numbered 0 cells" "distinct (map unitRect cells)"
    and "k < length cells" "row q = row (cells ! k)" "col q = col (cells ! k)"
  shows "\<exists>m. search_node minimumCellSize q r = Some m \<and> index m = Some (int k)"
proof -
  have u: "unitRect q = unitRect (cells ! k)" using assms(5,6) by (simp add: unitRect_eq)
  note n = numbered_nth [OF assms(3,4) u]
  show ?thesis
  proof (cases "search_node minimumCellSize q r")
    case None
    with search_node_entries [OF assms(1), of q] assms(2) n show ?thesis by auto
  next
    case (Some m)
    with search_node_entries [OF assms(1), of q] assms(2) n show ?thesis by auto
  qed
qed

lemma search_indexed_absent:
  assumes "wellFormed r" "entries r = numbered 0 cells"
    and "(row q, col q) \<notin> (\<lambda>cell. (row cell, col cell)) ` set cells"
  shows "search_node minimumCellSize q r = None"
proof (cases "search_node minimumCellSize q r")
  case None
  then show ?thesis .
next
  case (Some m)
  with search_node_entries [OF assms(1), of q] assms(2) obtain j where
    "(unitRect q, j) \<in> numbered 0 cells" by auto
  then obtain k where "k < length cells" "unitRect q = unitRect (cells ! k)"
    by (auto simp: numbered_iff)
  then have "(row q, col q) \<in> (\<lambda>cell. (row cell, col cell)) ` set cells"
    by (auto simp: unitRect_eq image_iff intro!: bexI [of _ "cells ! k"])
  with assms(3) show ?thesis by simp
qed

section \<open>Indexing cells of the grid\<close>

text \<open>
  On the grid: for every list of cells with pairwise distinct coordinates none of which
  is negative, \<^verbatim>\<open>index\<close> returns; the tree has as many alive cells as the list; the
  search for the cell at position \<open>k\<close> of the list returns a node whose index is \<open>k\<close>, a
  valid position of \<^verbatim>\<open>leaves\<close> that holds that cell; and the search for a cell at
  coordinates that are not in the list returns null.
\<close>

theorem index_then_search:
  assumes "\<forall>cell \<in> set cells. 0 \<le> row cell \<and> 0 \<le> col cell"
    and "distinct (map (\<lambda>cell. (row cell, col cell)) cells)"
  shows "\<exists>t. QuadTree_index tree (Some cells) = Some t \<and> leaves t = cells \<and>
           aliveCellsCount t = length cells \<and>
           (\<forall>k < length cells. \<exists>m. search t (cells ! k) = Inr (Some m) \<and>
               index m = Some (int k) \<and> validIndex (leaves t) (index m) \<and>
               leaves t ! nat (int k) = cells ! k) \<and>
           (\<forall>q. (row q, col q) \<notin> (\<lambda>cell. (row cell, col cell)) ` set cells \<longrightarrow>
               search t q = Inr None)"
proof -
  from QuadTree_index_onGrid [OF assms, of tree] obtain r where
    r: "QuadTree_index tree (Some cells) =
          Some \<lparr>leaves = cells, root = Some r, boundary = Some (indexBoundary cells)\<rparr>"
       "wellFormed r" "entries r = numbered 0 cells" by blast
  let ?t = "\<lparr>leaves = cells, root = Some r, boundary = Some (indexBoundary cells)\<rparr>"
  from assms(2) have d: "distinct (map unitRect cells)" by (simp add: distinct_unitRect)
  have p: "\<exists>m. search ?t (cells ! k) = Inr (Some m) \<and>
               index m = Some (int k) \<and> validIndex (leaves ?t) (index m) \<and>
               leaves ?t ! nat (int k) = cells ! k" if "k < length cells" for k
    using search_indexed_present [OF r(2,3) d that, of "cells ! k"] that
    by (auto simp: search_def validIndex_def)
  have a: "search ?t q = Inr None"
    if "(row q, col q) \<notin> (\<lambda>cell. (row cell, col cell)) ` set cells" for q
    using search_indexed_absent [OF r(2,3) that] by (simp add: search_def)
  have "leaves ?t = cells \<and> aliveCellsCount ?t = length cells"
    by (simp add: aliveCellsCount_def)
  with r(1) p a show ?thesis by blast
qed

theorem index_then_search_witness:
  "\<exists>t. QuadTree_index QuadTree_empty (Some [newCell 0 0, newCell 2 1, newCell 1 3]) = Some t \<and>
       aliveCellsCount t = 3 \<and>
       (\<exists>m. search t (newCell 2 1) = Inr (Some m) \<and> index m = Some 1) \<and>
       search t (newCell 1 1) = Inr None"
proof -
  let ?cells = "[newCell 0 0, newCell 2 1, newCell 1 3]"
  have h1: "\<forall>cell \<in> set ?cells. 0 \<le> row cell \<and> 0 \<le> col cell"
    by (simp add: newCell_def)
  have h2: "distinct (map (\<lambda>cell. (row cell, col cell)) ?cells)"
    by (simp add: newCell_def)
  from index_then_search [OF h1 h2, of QuadTree_empty] obtain t where
    t: "QuadTree_index QuadTree_empty (Some ?cells) = Some t" "aliveCellsCount t = length ?cells"
       "\<forall>k < length ?cells. \<exists>m. search t (?cells ! k) = Inr (Some m) \<and>
               index m = Some (int k) \<and> validIndex (leaves t) (index m) \<and>
               leaves t ! nat (int k) = ?cells ! k"
       "\<forall>q. (row q, col q) \<notin> (\<lambda>cell. (row cell, col cell)) ` set ?cells \<longrightarrow>
               search t q = Inr None"
    by blast
  from t(3) have "\<exists>m. search t (?cells ! 1) = Inr (Some m) \<and> index m = Some (int 1)"
    by (metis One_nat_def length_Cons lessI list.size(3) less_Suc_eq)
  then have a: "\<exists>m. search t (newCell 2 1) = Inr (Some m) \<and> index m = Some 1" by simp
  have "(row (newCell 1 1), col (newCell 1 1)) \<notin> (\<lambda>cell. (row cell, col cell)) ` set ?cells"
    by (simp add: newCell_def)
  with t(4) have b: "search t (newCell 1 1) = Inr None" by blast
  from t(1,2) a b show ?thesis by auto
qed

text \<open>
  On the grid: on the tree that \<^verbatim>\<open>index\<close> builds from cells with pairwise distinct
  coordinates none of which is negative, \<^verbatim>\<open>findAliveInArea(x, y, xx, yy)\<close> returns,
  as a set, exactly the cells of the list with \<open>x \<le> row \<le> xx\<close> and \<open>y \<le> col \<le> yy\<close>.
\<close>

theorem index_then_findAliveInArea:
  assumes "\<forall>cell \<in> set cells. 0 \<le> row cell \<and> 0 \<le> col cell"
    and "distinct (map (\<lambda>cell. (row cell, col cell)) cells)"
  shows "\<exists>t found. QuadTree_index tree (Some cells) = Some t \<and>
           findAliveInArea t x y xx yy = Inr found \<and>
           set found = {cell \<in> set cells. isInsideRect cell x y xx yy}"
proof -
  from QuadTree_index_onGrid [OF assms, of tree] obtain r where
    r: "QuadTree_index tree (Some cells) =
          Some \<lparr>leaves = cells, root = Some r, boundary = Some (indexBoundary cells)\<rparr>"
       "wellFormed r" "entries r = numbered 0 cells" by blast
  let ?t = "\<lparr>leaves = cells, root = Some r, boundary = Some (indexBoundary cells)\<rparr>"
  have v: "\<forall>e \<in> entries r. 0 \<le> snd e \<and> snd e < int (length cells) \<and>
             fst e = unitRect (cells ! nat (snd e))"
    unfolding r(3) by (auto simp: numbered_iff)
  have "set (findAliveInArea_node cells x y xx yy r) =
          {cell. \<exists>R j. (R, j) \<in> numbered 0 cells \<and> cell = cells ! nat j \<and> isInsideRect cell x y xx yy}"
    using findAliveInArea_node_entries [OF r(2) v] r(3) by simp
  also have "\<dots> = {cell \<in> set cells. isInsideRect cell x y xx yy}"
  proof (intro set_eqI iffI)
    fix cell
    assume "cell \<in> {cell. \<exists>R j. (R, j) \<in> numbered 0 cells \<and> cell = cells ! nat j \<and>
                               isInsideRect cell x y xx yy}"
    then show "cell \<in> {cell \<in> set cells. isInsideRect cell x y xx yy}"
      by (auto simp: numbered_iff)
  next
    fix cell
    assume "cell \<in> {cell \<in> set cells. isInsideRect cell x y xx yy}"
    then obtain k where k: "k < length cells" "cell = cells ! k" "isInsideRect cell x y xx yy"
      by (auto simp: in_set_conv_nth)
    then have "(unitRect (cells ! k), int k) \<in> numbered 0 cells \<and> cell = cells ! nat (int k)"
      by (auto simp: numbered_iff)
    with k(3) show "cell \<in> {cell. \<exists>R j. (R, j) \<in> numbered 0 cells \<and> cell = cells ! nat j \<and>
                               isInsideRect cell x y xx yy}"
      by blast
  qed
  finally have "set (findAliveInArea_node cells x y xx yy r) =
                  {cell \<in> set cells. isInsideRect cell x y xx yy}" .
  then have "findAliveInArea ?t x y xx yy = Inr (findAliveInArea_node cells x y xx yy r) \<and>
             set (findAliveInArea_node cells x y xx yy r) = {cell \<in> set cells. isInsideRect cell x y xx yy}"
    by (simp add: findAliveInArea_def)
  with r(1) show ?thesis by blast
qed

theorem index_then_findAliveInArea_witness:
  "\<exists>t found. QuadTree_index QuadTree_empty (Some [newCell 0 0, newCell 2 1, newCell 1 3]) = Some t \<and>
       findAliveInArea t 1 0 2 3 = Inr found \<and>
       set found = {newCell 2 1, newCell 1 3}"
proof -
  let ?cells = "[newCell 0 0, newCell 2 1, newCell 1 3]"
  have h1: "\<forall>cell \<in> set ?cells. 0 \<le> row cell \<and> 0 \<le> col cell"
    by (simp add: newCell_def)
  have h2: "distinct (map (\<lambda>cell. (row cell, col cell)) ?cells)"
    by (simp add: newCell_def)
  have "{cell \<in> set ?cells. isInsideRect cell 1 0 2 3} = {newCell 2 1, newCell 1 3}"
    by (auto simp: isInsideRect_def newCell_def)
  with index_then_findAliveInArea [OF h1 h2, of QuadTree_empty 1 0 2 3]
  show ?thesis by simp
qed

text \<open>
  On the grid: on that tree \<^verbatim>\<open>findCellIfAlive\<close> returns the cell of the
  list at the coordinates asked for, and the dead sentinel at coordinates where the list
  has no cell.
\<close>

theorem index_then_findCellIfAlive:
  assumes "\<forall>cell \<in> set cells. 0 \<le> row cell \<and> 0 \<le> col cell"
    and "distinct (map (\<lambda>cell. (row cell, col cell)) cells)"
  shows "\<exists>t. QuadTree_index tree (Some cells) = Some t \<and>
           (\<forall>k < length cells.
               findCellIfAlive t (row (cells ! k)) (col (cells ! k)) = Inr (onGrid (cells ! k))) \<and>
           (\<forall>r c. (r, c) \<notin> (\<lambda>cell. (row cell, col cell)) ` set cells \<longrightarrow>
               findCellIfAlive t r c = Inr DeadCell)"
proof -
  from QuadTree_index_onGrid [OF assms, of tree] obtain rt where
    r: "QuadTree_index tree (Some cells) =
          Some \<lparr>leaves = cells, root = Some rt, boundary = Some (indexBoundary cells)\<rparr>"
       "wellFormed rt" "entries rt = numbered 0 cells" by blast
  let ?t = "\<lparr>leaves = cells, root = Some rt, boundary = Some (indexBoundary cells)\<rparr>"
  from assms(2) have d: "distinct (map unitRect cells)" by (simp add: distinct_unitRect)
  have p: "findCellIfAlive ?t (row (cells ! k)) (col (cells ! k)) = Inr (onGrid (cells ! k))"
    if "k < length cells" for k
  proof -
    from search_indexed_present [OF r(2,3) d that, of "newCell (row (cells ! k)) (col (cells ! k))"]
    obtain m where "search_node minimumCellSize (newCell (row (cells ! k)) (col (cells ! k))) rt = Some m"
      "index m = Some (int k)" by (auto simp: newCell_def)
    with that show ?thesis
      by (simp add: findCellIfAlive_def search_def validIndex_def)
  qed
  have a: "findCellIfAlive ?t rr cc = Inr DeadCell"
    if "(rr, cc) \<notin> (\<lambda>cell. (row cell, col cell)) ` set cells" for rr cc
  proof -
    from that have "(row (newCell rr cc), col (newCell rr cc)) \<notin> (\<lambda>cell. (row cell, col cell)) ` set cells"
      by (simp add: newCell_def)
    from search_indexed_absent [OF r(2,3) this] show ?thesis
      by (simp add: findCellIfAlive_def search_def)
  qed
  from r(1) p a show ?thesis by blast
qed

theorem index_then_findCellIfAlive_witness:
  "\<exists>t. QuadTree_index QuadTree_empty (Some [Cell 0 0 4 ALIVE, Cell 2 1 7 ALIVE]) = Some t \<and>
       findCellIfAlive t 2 1 = Inr (Cell (Fin 2) (Fin 1) 7 ALIVE) \<and>
       findCellIfAlive t 1 1 = Inr DeadCell"
proof -
  let ?cells = "[Cell 0 0 4 ALIVE, Cell 2 1 7 ALIVE] :: int Cell list"
  have h1: "\<forall>cell \<in> set ?cells. 0 \<le> row cell \<and> 0 \<le> col cell"
    by simp
  have h2: "distinct (map (\<lambda>cell. (row cell, col cell)) ?cells)"
    by simp
  from index_then_findCellIfAlive [OF h1 h2, of QuadTree_empty] obtain t where
    t: "QuadTree_index QuadTree_empty (Some ?cells) = Some t"
       "\<forall>k < length ?cells.
               findCellIfAlive t (row (?cells ! k)) (col (?cells ! k)) = Inr (onGrid (?cells ! k))"
       "\<forall>r c. (r, c) \<notin> (\<lambda>cell. (row cell, col cell)) ` set ?cells \<longrightarrow>
               findCellIfAlive t r c = Inr DeadCell"
    by blast
  from t(2) have "findCellIfAlive t (row (?cells ! 1)) (col (?cells ! 1)) = Inr (onGrid (?cells ! 1))"
    by (metis One_nat_def length_Cons lessI list.size(3))
  then have a: "findCellIfAlive t 2 1 = Inr (Cell (Fin 2) (Fin 1) 7 ALIVE)"
    by (simp add: onGrid_def)
  have "(1, 1) \<notin> (\<lambda>cell. (row cell, col cell)) ` set ?cells" by simp
  with t(3) have b: "findCellIfAlive t 1 1 = Inr DeadCell" by blast
  from t(1) a b show ?thesis by blast
qed

section \<open>The leaf index, the area and the split point on the grid\<close>

lemma nodes_wellFormed:
  assumes "wellFormed r" "n \<in> nodes r"
  shows "wellFormed n"
  using assms by (induction r) auto

lemma children_within:
  assumes "wellFormed (Subdivided r a ix ul ur ll lr)"
  shows "containsRect ul cell \<Longrightarrow> containsRect (Subdivided r a ix ul ur ll lr) cell"
        "containsRect ur cell \<Longrightarrow> containsRect (Subdivided r a ix ul ur ll lr) cell"
        "containsRect ll cell \<Longrightarrow> containsRect (Subdivided r a ix ul ur ll lr) cell"
        "containsRect lr cell \<Longrightarrow> containsRect (Subdivided r a ix ul ur ll lr) cell"
proof -
  from assms have g: "onGridRect r" by simp
  note sw = split_within [OF g]
  from assms have rs: "rect ul = Rect (rect_x r) (rect_y r) (splitX r) (splitY r)"
            "rect ur = Rect (splitX r) (rect_y r) (rect_xx r) (splitY r)"
            "rect ll = Rect (rect_x r) (splitY r) (splitX r) (rect_yy r)"
            "rect lr = Rect (splitX r) (splitY r) (rect_xx r) (rect_yy r)"
    by simp_all
  show "containsRect ul cell \<Longrightarrow> containsRect (Subdivided r a ix ul ur ll lr) cell"
    using sw rs by (simp add: containsRect_iff)
  show "containsRect ur cell \<Longrightarrow> containsRect (Subdivided r a ix ul ur ll lr) cell"
    using sw rs by (simp add: containsRect_iff)
  show "containsRect ll cell \<Longrightarrow> containsRect (Subdivided r a ix ul ur ll lr) cell"
    using sw rs by (simp add: containsRect_iff)
  show "containsRect lr cell \<Longrightarrow> containsRect (Subdivided r a ix ul ur ll lr) cell"
    using sw rs by (simp add: containsRect_iff)
qed

lemma nodes_within:
  assumes "wellFormed r" "n \<in> nodes r" "containsRect n cell"
  shows "containsRect r cell"
  using assms
proof (induction r)
  case (Undivided r a i)
  then show ?case by simp
next
  case (Subdivided r a ix ul ur ll lr)
  note cw = children_within [OF Subdivided.prems(1), of cell]
  from Subdivided.prems(1) have wf: "wellFormed ul" "wellFormed ur" "wellFormed ll" "wellFormed lr"
    by simp_all
  from Subdivided.prems(2) consider "n = Subdivided r a ix ul ur ll lr" | "n \<in> nodes ul"
    | "n \<in> nodes ur" | "n \<in> nodes ll" | "n \<in> nodes lr" by auto
  then show ?case
  proof cases
    case 1
    with Subdivided.prems(3) show ?thesis by simp
  next
    case 2
    from cw(1) Subdivided.IH(1) [OF wf(1) 2 Subdivided.prems(3)] show ?thesis .
  next
    case 3
    from cw(2) Subdivided.IH(2) [OF wf(2) 3 Subdivided.prems(3)] show ?thesis .
  next
    case 4
    from cw(3) Subdivided.IH(3) [OF wf(3) 4 Subdivided.prems(3)] show ?thesis .
  next
    case 5
    from cw(4) Subdivided.IH(4) [OF wf(4) 5 Subdivided.prems(3)] show ?thesis .
  qed
qed

lemma children_exclusive:
  assumes "wellFormed (Subdivided r a ix ul ur ll lr)"
  shows "\<not> (containsRect ul cell \<and> containsRect ur cell)"
        "\<not> (containsRect ul cell \<and> containsRect ll cell)"
        "\<not> (containsRect ul cell \<and> containsRect lr cell)"
        "\<not> (containsRect ur cell \<and> containsRect ll cell)"
        "\<not> (containsRect ur cell \<and> containsRect lr cell)"
        "\<not> (containsRect ll cell \<and> containsRect lr cell)"
  using assms by (auto simp: containsRect_iff)

lemma nodes_entry:
  assumes "wellFormed r" "n \<in> nodes r" "index n = Some j"
  shows "(rect n, j) \<in> entries r"
  using assms by (induction r) auto

lemma tagged_iff:
  assumes "wellFormed r" "n \<in> nodes r" "area n = 1" "containsRect n cell"
  shows "index n \<noteq> None \<longleftrightarrow> (\<exists>j. (unitRect cell, j) \<in> entries r)"
  using assms
proof (induction r)
  case (Undivided r0 a ix)
  then have n: "n = Undivided r0 a ix" by simp
  with Undivided.prems have "r0 = unitRect cell"
    using unit_of_area_one [of r0 a ix cell] by auto
  with n show ?case by (auto split: option.splits)
next
  case (Subdivided r a ix ul ur ll lr)
  note wfp = Subdivided.prems(1)
  from wfp have wf: "wellFormed ul" "wellFormed ur" "wellFormed ll" "wellFormed lr"
    by simp_all
  note ex = children_exclusive [OF wfp, of cell]
  have ec: "(unitRect cell, j) \<in> entries k \<Longrightarrow> wellFormed k \<Longrightarrow> containsRect k cell" for j k
    using entries_contains by blast
  from Subdivided.prems(2,3) wfp consider "n \<in> nodes ul"
    | "n \<in> nodes ur" | "n \<in> nodes ll" | "n \<in> nodes lr" by auto
  then show ?case
  proof cases
    case 1
    from nodes_within [OF wf(1) 1 Subdivided.prems(4)] have c: "containsRect ul cell" .
    have "(\<exists>j. (unitRect cell, j) \<in> entries (Subdivided r a ix ul ur ll lr)) \<longleftrightarrow>
          (\<exists>j. (unitRect cell, j) \<in> entries ul)"
      using c ex ec [of _ ur] ec [of _ ll] ec [of _ lr] wf by auto
    with Subdivided.IH(1) [OF wf(1) 1 Subdivided.prems(3,4)] show ?thesis by simp
  next
    case 2
    from nodes_within [OF wf(2) 2 Subdivided.prems(4)] have c: "containsRect ur cell" .
    have "(\<exists>j. (unitRect cell, j) \<in> entries (Subdivided r a ix ul ur ll lr)) \<longleftrightarrow>
          (\<exists>j. (unitRect cell, j) \<in> entries ur)"
      using c ex ec [of _ ul] ec [of _ ll] ec [of _ lr] wf by auto
    with Subdivided.IH(2) [OF wf(2) 2 Subdivided.prems(3,4)] show ?thesis by simp
  next
    case 3
    from nodes_within [OF wf(3) 3 Subdivided.prems(4)] have c: "containsRect ll cell" .
    have "(\<exists>j. (unitRect cell, j) \<in> entries (Subdivided r a ix ul ur ll lr)) \<longleftrightarrow>
          (\<exists>j. (unitRect cell, j) \<in> entries ll)"
      using c ex ec [of _ ul] ec [of _ ur] ec [of _ lr] wf by auto
    with Subdivided.IH(3) [OF wf(3) 3 Subdivided.prems(3,4)] show ?thesis by simp
  next
    case 4
    from nodes_within [OF wf(4) 4 Subdivided.prems(4)] have c: "containsRect lr cell" .
    have "(\<exists>j. (unitRect cell, j) \<in> entries (Subdivided r a ix ul ur ll lr)) \<longleftrightarrow>
          (\<exists>j. (unitRect cell, j) \<in> entries lr)"
      using c ex ec [of _ ul] ec [of _ ur] ec [of _ ll] wf by auto
    with Subdivided.IH(4) [OF wf(4) 4 Subdivided.prems(3,4)] show ?thesis by simp
  qed
qed

lemma nodes_self: "n \<in> nodes n"
  by (cases n) simp_all

text \<open>
  On the grid: in the tree that \<^verbatim>\<open>index\<close> builds from cells with pairwise distinct
  coordinates none of which is negative, a node carries an index if and only if its area
  is 1 and it contains a cell of the list; so no node of another area carries one.
\<close>

theorem index_tags_unit_nodes:
  assumes "\<forall>cell \<in> set cells. 0 \<le> row cell \<and> 0 \<le> col cell"
    and "distinct (map (\<lambda>cell. (row cell, col cell)) cells)"
  shows "\<exists>t r. QuadTree_index tree (Some cells) = Some t \<and> root t = Some r \<and>
           (\<forall>n \<in> nodes r. (index n \<noteq> None) =
                (area n = 1 \<and> (\<exists>cell \<in> set cells. containsRect n cell)))"
proof -
  from QuadTree_index_onGrid [OF assms, of tree] obtain r where
    r: "QuadTree_index tree (Some cells) =
          Some \<lparr>leaves = cells, root = Some r, boundary = Some (indexBoundary cells)\<rparr>"
       "wellFormed r" "entries r = numbered 0 cells" by blast
  have "(index n \<noteq> None) = (area n = 1 \<and> (\<exists>cell \<in> set cells. containsRect n cell))"
    if n: "n \<in> nodes r" for n
  proof
    assume "index n \<noteq> None"
    then obtain j where j: "index n = Some j" by blast
    from nodes_wellFormed [OF r(2) n] have wn: "wellFormed n" .
    with j have a: "area n = 1" by (cases n) auto
    from nodes_entry [OF r(2) n j] r(3) obtain k where
      k: "k < length cells" "rect n = unitRect (cells ! k)"
      by (auto simp: numbered_iff)
    then have "containsRect n (cells ! k)"
      by (simp add: containsRect_iff unitRect_def)
    with k(1) a show "area n = 1 \<and> (\<exists>cell \<in> set cells. containsRect n cell)"
      by (auto intro: nth_mem)
  next
    assume "area n = 1 \<and> (\<exists>cell \<in> set cells. containsRect n cell)"
    then obtain cell where c: "area n = 1" "cell \<in> set cells" "containsRect n cell" by blast
    from c(2) obtain k where "k < length cells" "cell = cells ! k"
      by (auto simp: in_set_conv_nth)
    then have "(unitRect cell, int k) \<in> entries r"
      unfolding r(3) by (auto simp: numbered_iff)
    with tagged_iff [OF r(2) n c(1,3)] show "index n \<noteq> None" by blast
  qed
  with r(1) show ?thesis by simp
qed

theorem index_tags_unit_nodes_witness:
  "\<exists>t r. QuadTree_index QuadTree_empty (Some [newCell 0 0, newCell 1 1]) = Some t \<and>
       root t = Some r \<and>
       r = Subdivided (Rect 0 0 2 2) 4 None
             (Undivided (Rect 0 0 1 1) 1 (Some 0)) (Undivided (Rect 1 0 2 1) 1 None)
             (Undivided (Rect 0 1 1 2) 1 None) (Undivided (Rect 1 1 2 2) 1 (Some 1)) \<and>
       (index (upperRight r) \<noteq> None) =
          (area (upperRight r) = 1 \<and>
           (\<exists>cell \<in> set [newCell 0 0, newCell 1 1]. containsRect (upperRight r) cell))"
proof -
  let ?cells = "[newCell 0 0, newCell 1 1]"
  let ?r = "Subdivided (Rect 0 0 2 2) 4 None
             (Undivided (Rect 0 0 1 1) 1 (Some 0)) (Undivided (Rect 1 0 2 1) 1 None)
             (Undivided (Rect 0 1 1 2) 1 None) (Undivided (Rect 1 1 2 2) 1 (Some 1))"
  have h1: "\<forall>cell \<in> set ?cells. 0 \<le> row cell \<and> 0 \<le> col cell"
    by (simp add: newCell_def)
  have h2: "distinct (map (\<lambda>cell. (row cell, col cell)) ?cells)"
    by (simp add: newCell_def)
  have e: "QuadTree_index QuadTree_empty (Some ?cells) =
             Some \<lparr>leaves = ?cells, root = Some ?r, boundary = Some (AABB 0 0 2 2)\<rparr>"
    by code_simp
  from index_tags_unit_nodes [OF h1 h2, of QuadTree_empty] e have
    "\<forall>n \<in> nodes ?r. (index n \<noteq> None) =
                (area n = 1 \<and> (\<exists>cell \<in> set ?cells. containsRect n cell))"
    by simp
  moreover have "upperRight ?r \<in> nodes ?r" by simp
  ultimately have "(index (upperRight ?r) \<noteq> None) =
          (area (upperRight ?r) = 1 \<and> (\<exists>cell \<in> set ?cells. containsRect (upperRight ?r) cell))"
    by blast
  with e show ?thesis by simp
qed

text \<open>
  On the grid: for bounds with \<open>0 \<le> x \<le> xx\<close> and \<open>0 \<le> y \<le> yy\<close> the stored area
  of the node is \<open>\<bar>xx - x\<bar> * \<bar>yy - y\<bar>\<close>.
\<close>

theorem area_on_grid:
  assumes "0 \<le> x" "x \<le> xx" "0 \<le> y" "y \<le> yy"
  shows "area (newQTNode x y xx yy) = \<bar>xx - x\<bar> * \<bar>yy - y\<bar>"
  using assms by (simp add: newQTNode_def area_of_def)

theorem area_on_grid_witness:
  "(0::int) \<le> 2 \<and> (2::int) \<le> 5 \<and> (0::int) \<le> 1 \<and> (1::int) \<le> 3 \<and>
   area (newQTNode 2 1 5 3) = 6 \<and> \<bar>5 - 2\<bar> * \<bar>3 - 1\<bar> = (6::int)"
  using area_on_grid [of 2 5 1 3] by simp

text \<open>
  On the grid: for bounds with \<open>0 \<le> x \<le> xx\<close> and \<open>0 \<le> y \<le> yy\<close>,
  \<^verbatim>\<open>subdivide\<close> splits at \<open>p = x + ceil((xx - x) / 2)\<close> and
  \<open>q = y + ceil((yy - y) / 2)\<close> into upperLeft \<open>(x, y, p, q)\<close>, upperRight
  \<open>(p, y, xx, q)\<close>, lowerLeft \<open>(x, q, p, yy)\<close> and lowerRight \<open>(p, q, xx, yy)\<close>, and a
  second call changes nothing.
\<close>

theorem subdivide_on_grid:
  assumes "0 \<le> x" "x \<le> xx" "0 \<le> y" "y \<le> yy"
  shows "subdivide (newQTNode x y xx yy) =
           Subdivided (Rect x y xx yy) (area (newQTNode x y xx yy)) None
             (newQTNode x y (x + ceil_half (xx - x)) (y + ceil_half (yy - y)))
             (newQTNode (x + ceil_half (xx - x)) y xx (y + ceil_half (yy - y)))
             (newQTNode x (y + ceil_half (yy - y)) (x + ceil_half (xx - x)) yy)
             (newQTNode (x + ceil_half (xx - x)) (y + ceil_half (yy - y)) xx yy)
         \<and> subdivide (subdivide (newQTNode x y xx yy)) = subdivide (newQTNode x y xx yy)"
  using assms by (simp add: newQTNode_def subdivide_Undivided splitX_def splitY_def)

theorem subdivide_on_grid_witness:
  "(0::int) \<le> 2 \<and> (2::int) \<le> 5 \<and> (0::int) \<le> 1 \<and> (1::int) \<le> 3 \<and>
   subdivide (newQTNode 2 1 5 3) =
     Subdivided (Rect 2 1 5 3) 6 None
       (newQTNode 2 1 4 2) (newQTNode 4 1 5 2) (newQTNode 2 2 4 3) (newQTNode 4 2 5 3)"
  using subdivide_on_grid [of 2 5 1 3]
  by (simp add: ceil_half_div newQTNode_def area_of_def)

section \<open>Indexing that does not return\<close>

lemma square_gt_one:
  fixes d :: int
  assumes "2 \<le> d"
  shows "1 < d * d"
proof -
  have "2 * 2 \<le> d * d" using assms by (intro mult_mono) auto
  then show ?thesis by linarith
qed

lemma addCell_never_returns_aux:
  assumes "addCell m node cell i = Some y"
  shows "\<not> (m = 1 \<and> cell = newCell (-3) (-3) \<and> (\<exists>k\<ge>3. node = newQTNode (-k) (-k) (-1) (-1)))"
proof (rule addCell.raw_induct
    [where P = "\<lambda>m node cell i y.
        \<not> (m = 1 \<and> cell = newCell (-3) (-3) \<and> (\<exists>k\<ge>3. node = newQTNode (-k) (-k) (-1) (-1)))",
     OF _ assms], goal_cases)
  case (1 rec m node cell i y)
  show ?case
  proof
    assume a: "m = 1 \<and> cell = newCell (-3) (-3) \<and> (\<exists>k\<ge>3. node = newQTNode (-k) (-k) (-1) (-1))"
    then obtain k where k: "3 \<le> k" "node = newQTNode (-k) (-k) (-1) (-1)" by blast
    define p where "p = - k + ceil_half (1 - k)"
    have p3: "3 \<le> - p" using k(1) unfolding p_def ceil_half_div by linarith
    have c: "containsRect node cell"
      using a k by (simp add: containsRect_iff newCell_def)
    have "2 \<le> k - 1" using k(1) by linarith
    then have sq: "1 < (k - 1) * (k - 1)" by (rule square_gt_one)
    have eq: "(1 - k) * (1 - k) = (k - 1) * (k - 1)" by (simp add: algebra_simps)
    have "1 < (1 - k) * (1 - k)" unfolding eq by (rule sq)
    then have big: "\<not> area node \<le> m"
      using a k(2) by (simp add: newQTNode_def area_of_def)
    have s: "subdivide node =
               Subdivided (Rect (-k) (-k) (-1) (-1)) (area node) None
                 (newQTNode (-k) (-k) p p) (newQTNode p (-k) (-1) p)
                 (newQTNode (-k) p p (-1)) (newQTNode p p (-1) (-1))"
      using k by (simp add: newQTNode_def subdivide_Undivided splitX_def splitY_def p_def)
    from 1(2) c big s obtain lr' where "rec m (newQTNode p p (-1) (-1)) cell i = Some lr'"
      by (auto split: bind_splits)
    from 1(1) [OF this] a p3 show False
      by (auto dest: spec [of _ "- p"])
  qed
qed

lemma addCell_never_returns:
  "addCell minimumCellSize (newQTNode (-3) (-3) (-1) (-1)) (newCell (-3) (-3)) i = None"
proof (cases "addCell minimumCellSize (newQTNode (-3) (-3) (-1) (-1)) (newCell (-3) (-3)) i")
  case None
  then show ?thesis .
next
  case (Some y)
  from addCell_never_returns_aux [OF Some] show ?thesis
    by (auto simp: minimumCellSize_def)
qed

text \<open>
  For the cells at \<open>(-3, -3)\<close> and \<open>(-2, -2)\<close>, \<^verbatim>\<open>index\<close> does not return: the
  root spans \<open>(-3, -3, -1, -1)\<close>, and each \<^verbatim>\<open>subdivide\<close> on the way of the first cell
  makes a lower right child that reaches further left and up than its parent, with a larger
  stored area, so the recursion of \<^verbatim>\<open>addCell\<close> never reaches an area of at most 1.
\<close>

theorem index_never_returns:
  "QuadTree_index QuadTree_empty (Some [newCell (-3) (-3), newCell (-2) (-2)]) = None"
proof -
  have b: "indexBoundary [newCell (-3) (-3), newCell (-2) (-2)] = AABB (-3) (-3) (-1) (-1)"
    by (simp add: indexBoundary_def buildAxisAlignedBoundingBox_def extendBounds_tuple newCell_def)
  show ?thesis
    by (simp add: QuadTree_index_unfold indexRoot_def b addCell_never_returns)
qed

section \<open>Evaluating and activating\<close>

lemma evaluateCell_total:
  assumes "root tree = Some node"
  shows "\<exists>acc'. evaluateCell tree evaluate r c acc = Inr acc'"
proof -
  obtain n where n: "findAliveNeighbors tree r c = Inr n"
    using assms by (simp add: findAliveNeighbors_def findAliveInArea_def)
  have "\<exists>found. findCellIfAlive tree r c = Inr found"
    using assms by (simp add: findCellIfAlive_def search_def split: option.splits)
  then obtain found where f: "findCellIfAlive tree r c = Inr found" by blast
  show ?thesis by (simp add: evaluateCell_def n f Let_def)
qed

lemma evaluateCols_total:
  assumes "root tree = Some node"
  shows "\<exists>acc'. evaluateCols tree evaluate r cs acc = Inr acc'"
proof (induction cs arbitrary: acc)
  case Nil
  then show ?case by simp
next
  case (Cons c cs)
  from evaluateCell_total [OF assms, of evaluate r c acc] obtain mid where
    "evaluateCell tree evaluate r c acc = Inr mid" by blast
  with Cons.IH [of mid] show ?case by simp
qed

lemma evaluateRows_total:
  assumes "root tree = Some node"
  shows "\<exists>acc'. evaluateRows tree evaluate rs cs acc = Inr acc'"
proof (induction rs arbitrary: acc)
  case Nil
  then show ?case by simp
next
  case (Cons r rs)
  from evaluateCols_total [OF assms, of evaluate r cs acc] obtain mid where
    "evaluateCols tree evaluate r cs acc = Inr mid" by blast
  with Cons.IH [of mid] show ?case by simp
qed

lemma nextGeneration_onGrid:
  assumes "nextGeneration gm evaluate = Inr cells"
  shows "\<forall>cell \<in> set cells. 0 \<le> row cell \<and> 0 \<le> col cell"
proof
  fix cell assume "cell \<in> set cells"
  then have "cell \<in> set cells - set []" by simp
  with evaluateRows_Inr [OF assms [unfolded nextGeneration_def]]
  obtain r c a where "r \<in> set (map int [0..<landscape_width gm])"
    "c \<in> set (map int [0..<landscape_height gm])" "cell = Cell r c a ALIVE"
    by blast
  then show "0 \<le> row cell \<and> 0 \<le> col cell" by auto
qed

lemma QuadTree_index_returns:
  assumes "\<forall>cell \<in> set cells. 0 \<le> row cell \<and> 0 \<le> col cell"
  shows "\<exists>t. QuadTree_index tree (Some cells) = Some t"
  using indexRoot_onGrid [OF assms] by (auto simp: QuadTree_index_unfold)

lemma evaluateCells_returns:
  assumes "root (currentTree gm) = Some node"
  shows "\<exists>gm'. evaluateCells gm evaluate = Some (Inr gm')"
proof -
  from evaluateRows_total [OF assms] obtain cells where
    g: "nextGeneration gm evaluate = Inr cells"
    unfolding nextGeneration_def by blast
  from QuadTree_index_returns [OF nextGeneration_onGrid [OF g]] obtain t where
    "QuadTree_index (clear (nextTree gm)) (Some cells) = Some t" by blast
  with g show ?thesis by (simp add: evaluateCells_def)
qed

lemma findCellIfAlive_indexed:
  assumes "QuadTree_index tree liveCells = Some t"
    and "\<forall>cell \<in> set (leaves t). 0 \<le> row cell \<and> 0 \<le> col cell"
    and "distinct (map (\<lambda>cell. (row cell, col cell)) (leaves t))"
  shows "(\<forall>prev \<in> set (leaves t). findCellIfAlive t (row prev) (col prev) = Inr (onGrid prev)) \<and>
         (\<forall>r c. (r, c) \<notin> (\<lambda>cell. (row cell, col cell)) ` set (leaves t) \<longrightarrow>
             findCellIfAlive t r c = Inr DeadCell)"
proof -
  define cs where "cs = (case liveCells of None \<Rightarrow> leaves tree | Some cells \<Rightarrow> cells)"
  from assms(1) obtain rt where
    rt: "indexRoot cs = Some rt"
        "t = \<lparr>leaves = cs, root = Some rt, boundary = Some (indexBoundary cs)\<rparr>"
    unfolding QuadTree_index_unfold cs_def by auto
  then have l: "leaves t = cs" by simp
  from assms(3) have d: "distinct (map unitRect cs)"
    unfolding l by (simp add: distinct_unitRect)
  from indexRoot_onGrid [of cs] assms(2) rt(1) d have
    w: "wellFormed rt" and e: "entries rt = numbered 0 cs"
    unfolding l by auto
  have p: "findCellIfAlive t (row prev) (col prev) = Inr (onGrid prev)" if "prev \<in> set cs" for prev
  proof -
    from that obtain k where k: "k < length cs" "prev = cs ! k"
      by (auto simp: in_set_conv_nth)
    from search_indexed_present [OF w e d k(1), of "newCell (row prev) (col prev)"] k(2)
    obtain m where "search_node minimumCellSize (newCell (row prev) (col prev)) rt = Some m"
      "index m = Some (int k)" by (auto simp: newCell_def)
    with k show ?thesis
      by (simp add: findCellIfAlive_def search_def validIndex_def rt(2))
  qed
  have a: "findCellIfAlive t rr cc = Inr DeadCell"
    if "(rr, cc) \<notin> (\<lambda>cell. (row cell, col cell)) ` set cs" for rr cc
  proof -
    from that have "(row (newCell rr cc), col (newCell rr cc)) \<notin> (\<lambda>cell. (row cell, col cell)) ` set cs"
      by (simp add: newCell_def)
    from search_indexed_absent [OF w e this] show ?thesis
      by (simp add: findCellIfAlive_def search_def rt(2))
  qed
  from p a show ?thesis unfolding l by blast
qed

text \<open>
  Claim C3, amended: when the scan of \<^verbatim>\<open>evaluateCells\<close> returns its list, then at every
  position \<open>(r, c)\<close> of the landscape both queries on the current tree have returned, and
  if the evaluator's answer for the position is ALIVE, the list holds the cell at
  \<open>(r, c)\<close> whose age is the age of the cell that \<^verbatim>\<open>findCellIfAlive\<close> returned plus 1;
  every cell of the list at \<open>(r, c)\<close> has that age. When the lookup returned the dead
  sentinel, whose age is 0, the cell appended has the age 1. When the current tree is the
  result of \<^verbatim>\<open>index\<close> and its leaves have pairwise distinct coordinates none of which is
  negative, the lookup returns the leaf at \<open>(r, c)\<close>, the cell alive there, so the cell
  appended has the age of that cell plus 1; and where no leaf is at \<open>(r, c)\<close> the lookup
  returns the sentinel, so a cell born there has the age 1.
\<close>

theorem next_generation_ages:
  assumes "nextGeneration gm evaluate = Inr cells"
    and "r < landscape_width gm" and "c < landscape_height gm"
  shows "\<exists>n found.
           findAliveNeighbors (currentTree gm) (int r) (int c) = Inr n \<and>
           findCellIfAlive (currentTree gm) (int r) (int c) = Inr found \<and>
           (evaluate n (getState found) = ALIVE \<longrightarrow>
              Cell (int r) (int c) (age found + 1) ALIVE \<in> set cells) \<and>
           (\<forall>cell \<in> set cells. row cell = int r \<and> col cell = int c \<longrightarrow>
              age cell = age found + 1 \<and> evaluate n (getState found) = ALIVE) \<and>
           (found = DeadCell \<longrightarrow>
              (evaluate n DEAD = ALIVE \<longrightarrow> Cell (int r) (int c) 1 ALIVE \<in> set cells) \<and>
              (\<forall>cell \<in> set cells. row cell = int r \<and> col cell = int c \<longrightarrow> age cell = 1)) \<and>
           (\<forall>tree liveCells.
              QuadTree_index tree liveCells = Some (currentTree gm) \<and>
              (\<forall>cell \<in> set (leaves (currentTree gm)). 0 \<le> row cell \<and> 0 \<le> col cell) \<and>
              distinct (map (\<lambda>cell. (row cell, col cell)) (leaves (currentTree gm))) \<longrightarrow>
                (\<forall>prev \<in> set (leaves (currentTree gm)). row prev = int r \<and> col prev = int c \<longrightarrow>
                    found = onGrid prev \<and>
                    (evaluate n (state prev) = ALIVE \<longrightarrow>
                       Cell (int r) (int c) (age prev + 1) ALIVE \<in> set cells) \<and>
                    (\<forall>cell \<in> set cells. row cell = int r \<and> col cell = int c \<longrightarrow>
                       age cell = age prev + 1)) \<and>
                ((int r, int c) \<notin> (\<lambda>cell. (row cell, col cell)) ` set (leaves (currentTree gm)) \<longrightarrow>
                    found = DeadCell \<and>
                    (evaluate n DEAD = ALIVE \<longrightarrow> Cell (int r) (int c) 1 ALIVE \<in> set cells) \<and>
                    (\<forall>cell \<in> set cells. row cell = int r \<and> col cell = int c \<longrightarrow> age cell = 1)))"
proof -
  from nextGeneration_at [OF assms] obtain n found where
    n: "findAliveNeighbors (currentTree gm) (int r) (int c) = Inr n" and
    f: "findCellIfAlive (currentTree gm) (int r) (int c) = Inr found" and
    born: "evaluate n (getState found) = ALIVE \<longrightarrow>
              Cell (int r) (int c) (age found + 1) ALIVE \<in> set cells" and
    only: "\<forall>cell \<in> set cells. row cell = int r \<and> col cell = int c \<longrightarrow>
              age cell = age found + 1 \<and> evaluate n (getState found) = ALIVE"
    by blast
  have dead: "(evaluate n DEAD = ALIVE \<longrightarrow> Cell (int r) (int c) 1 ALIVE \<in> set cells) \<and>
              (\<forall>cell \<in> set cells. row cell = int r \<and> col cell = int c \<longrightarrow> age cell = 1)"
    if "found = DeadCell"
    using born only that by (simp add: DeadCell_def getState_def)
  have link: "(\<forall>prev \<in> set (leaves (currentTree gm)). row prev = int r \<and> col prev = int c \<longrightarrow>
                    found = onGrid prev \<and>
                    (evaluate n (state prev) = ALIVE \<longrightarrow>
                       Cell (int r) (int c) (age prev + 1) ALIVE \<in> set cells) \<and>
                    (\<forall>cell \<in> set cells. row cell = int r \<and> col cell = int c \<longrightarrow>
                       age cell = age prev + 1)) \<and>
                ((int r, int c) \<notin> (\<lambda>cell. (row cell, col cell)) ` set (leaves (currentTree gm)) \<longrightarrow>
                    found = DeadCell \<and>
                    (evaluate n DEAD = ALIVE \<longrightarrow> Cell (int r) (int c) 1 ALIVE \<in> set cells) \<and>
                    (\<forall>cell \<in> set cells. row cell = int r \<and> col cell = int c \<longrightarrow> age cell = 1))"
    if i: "QuadTree_index tree liveCells = Some (currentTree gm)"
      and g: "\<forall>cell \<in> set (leaves (currentTree gm)). 0 \<le> row cell \<and> 0 \<le> col cell"
      and d: "distinct (map (\<lambda>cell. (row cell, col cell)) (leaves (currentTree gm)))"
    for tree liveCells
  proof (intro conjI ballI impI)
    fix prev
    assume p: "prev \<in> set (leaves (currentTree gm))" and at: "row prev = int r \<and> col prev = int c"
    from findCellIfAlive_indexed [OF i g d] p at
    have "findCellIfAlive (currentTree gm) (int r) (int c) = Inr (onGrid prev)" by auto
    with f show fp: "found = onGrid prev" by simp
    from born fp show "evaluate n (state prev) = ALIVE \<Longrightarrow>
                       Cell (int r) (int c) (age prev + 1) ALIVE \<in> set cells"
      by (simp add: onGrid_def getState_def)
    fix cell
    assume "cell \<in> set cells" "row cell = int r \<and> col cell = int c"
    with only fp show "age cell = age prev + 1" by (simp add: onGrid_def)
  next
    assume no: "(int r, int c) \<notin> (\<lambda>cell. (row cell, col cell)) ` set (leaves (currentTree gm))"
    from findCellIfAlive_indexed [OF i g d] no
    have "findCellIfAlive (currentTree gm) (int r) (int c) = Inr DeadCell" by blast
    with f show fd: "found = DeadCell" by simp
    from dead [OF fd] show "evaluate n DEAD = ALIVE \<Longrightarrow> Cell (int r) (int c) 1 ALIVE \<in> set cells"
      by blast
    fix cell
    assume "cell \<in> set cells" "row cell = int r \<and> col cell = int c"
    with dead [OF fd] show "age cell = 1" by blast
  qed
  from n f born only dead link show ?thesis by blast
qed

theorem next_generation_ages_witness:
  "nextGeneration oneCellWorld AlwayAliveEvaluator
     = Inr [Cell 0 0 4 ALIVE, Cell 0 1 1 ALIVE, Cell 1 0 1 ALIVE, Cell 1 1 1 ALIVE]
   \<and> QuadTree_index QuadTree_empty (Some [Cell 0 0 3 ALIVE]) = Some (currentTree oneCellWorld)
   \<and> leaves (currentTree oneCellWorld) = [Cell 0 0 3 ALIVE]
   \<and> findCellIfAlive (currentTree oneCellWorld) 0 0 = Inr (onGrid (Cell 0 0 3 ALIVE))
   \<and> (Cell 0 0 4 ALIVE :: int Cell)
         \<in> set [Cell 0 0 4 ALIVE, Cell 0 1 1 ALIVE, Cell 1 0 1 ALIVE, Cell 1 1 1 ALIVE]
   \<and> findCellIfAlive (currentTree oneCellWorld) 1 1 = Inr DeadCell
   \<and> (Cell 1 1 1 ALIVE :: int Cell)
         \<in> set [Cell 0 0 4 ALIVE, Cell 0 1 1 ALIVE, Cell 1 0 1 ALIVE, Cell 1 1 1 ALIVE]"
proof -
  let ?cells = "[Cell 0 0 4 ALIVE, Cell 0 1 1 ALIVE, Cell 1 0 1 ALIVE, Cell 1 1 1 ALIVE] :: int Cell list"
  let ?cur = "currentTree oneCellWorld"
  have h1: "nextGeneration oneCellWorld AlwayAliveEvaluator = Inr ?cells"
    by code_simp
  have w0: "0 < landscape_width oneCellWorld" and w1: "1 < landscape_width oneCellWorld"
    and h0: "0 < landscape_height oneCellWorld" and h1': "1 < landscape_height oneCellWorld"
    by (simp_all add: oneCellWorld_def)
  have i: "QuadTree_index QuadTree_empty (Some [Cell 0 0 3 ALIVE]) = Some ?cur"
    by code_simp
  have l: "leaves ?cur = [Cell 0 0 3 ALIVE]"
    by (simp add: oneCellWorld_def oneCellIndexed_def)
  have g: "\<forall>cell \<in> set (leaves ?cur). 0 \<le> row cell \<and> 0 \<le> col cell"
    by (simp add: l)
  have d: "distinct (map (\<lambda>cell. (row cell, col cell)) (leaves ?cur))"
    by (simp add: l)
  note hyp = conjI [OF i conjI [OF g d]]
  have prev: "Cell 0 0 3 ALIVE \<in> set (leaves ?cur)"
    by (simp add: l)
  have at: "row (Cell 0 0 3 ALIVE :: int Cell) = int 0 \<and> col (Cell 0 0 3 ALIVE :: int Cell) = int 0"
    by simp
  have no: "(int 1, int 1) \<notin> (\<lambda>cell. (row cell, col cell)) ` set (leaves ?cur)"
    by (simp add: l)
  have p00: "findCellIfAlive ?cur 0 0 = Inr (onGrid (Cell 0 0 3 ALIVE))"
    and m00: "Cell 0 0 4 ALIVE \<in> set ?cells"
  proof -
    from next_generation_ages [OF h1 w0 h0] obtain n found where
      f: "findCellIfAlive ?cur (int 0) (int 0) = Inr found" and
      k: "\<forall>tree liveCells.
              QuadTree_index tree liveCells = Some ?cur \<and>
              (\<forall>cell \<in> set (leaves ?cur). 0 \<le> row cell \<and> 0 \<le> col cell) \<and>
              distinct (map (\<lambda>cell. (row cell, col cell)) (leaves ?cur)) \<longrightarrow>
                (\<forall>prev \<in> set (leaves ?cur). row prev = int 0 \<and> col prev = int 0 \<longrightarrow>
                    found = onGrid prev \<and>
                    (AlwayAliveEvaluator n (state prev) = ALIVE \<longrightarrow>
                       Cell (int 0) (int 0) (age prev + 1) ALIVE \<in> set ?cells) \<and>
                    (\<forall>cell \<in> set ?cells. row cell = int 0 \<and> col cell = int 0 \<longrightarrow>
                       age cell = age prev + 1)) \<and>
                ((int 0, int 0) \<notin> (\<lambda>cell. (row cell, col cell)) ` set (leaves ?cur) \<longrightarrow>
                    found = DeadCell \<and>
                    (AlwayAliveEvaluator n DEAD = ALIVE \<longrightarrow> Cell (int 0) (int 0) 1 ALIVE \<in> set ?cells) \<and>
                    (\<forall>cell \<in> set ?cells. row cell = int 0 \<and> col cell = int 0 \<longrightarrow> age cell = 1))"
      by (elim exE conjE)
    note k1 = k [THEN spec, THEN spec, THEN mp, OF hyp, THEN conjunct1, THEN bspec, OF prev, THEN mp, OF at]
    from k1 f show "findCellIfAlive ?cur 0 0 = Inr (onGrid (Cell 0 0 3 ALIVE))"
      by simp
    from k1 show "Cell 0 0 4 ALIVE \<in> set ?cells"
      by (simp add: AlwayAliveEvaluator_def)
  qed
  have p11: "findCellIfAlive ?cur 1 1 = Inr DeadCell"
    and m11: "Cell 1 1 1 ALIVE \<in> set ?cells"
  proof -
    from next_generation_ages [OF h1 w1 h1'] obtain n found where
      f: "findCellIfAlive ?cur (int 1) (int 1) = Inr found" and
      k: "\<forall>tree liveCells.
              QuadTree_index tree liveCells = Some ?cur \<and>
              (\<forall>cell \<in> set (leaves ?cur). 0 \<le> row cell \<and> 0 \<le> col cell) \<and>
              distinct (map (\<lambda>cell. (row cell, col cell)) (leaves ?cur)) \<longrightarrow>
                (\<forall>prev \<in> set (leaves ?cur). row prev = int 1 \<and> col prev = int 1 \<longrightarrow>
                    found = onGrid prev \<and>
                    (AlwayAliveEvaluator n (state prev) = ALIVE \<longrightarrow>
                       Cell (int 1) (int 1) (age prev + 1) ALIVE \<in> set ?cells) \<and>
                    (\<forall>cell \<in> set ?cells. row cell = int 1 \<and> col cell = int 1 \<longrightarrow>
                       age cell = age prev + 1)) \<and>
                ((int 1, int 1) \<notin> (\<lambda>cell. (row cell, col cell)) ` set (leaves ?cur) \<longrightarrow>
                    found = DeadCell \<and>
                    (AlwayAliveEvaluator n DEAD = ALIVE \<longrightarrow> Cell (int 1) (int 1) 1 ALIVE \<in> set ?cells) \<and>
                    (\<forall>cell \<in> set ?cells. row cell = int 1 \<and> col cell = int 1 \<longrightarrow> age cell = 1))"
      by (elim exE conjE)
    note k1 = k [THEN spec, THEN spec, THEN mp, OF hyp, THEN conjunct2, THEN mp, OF no]
    from k1 f show "findCellIfAlive ?cur 1 1 = Inr DeadCell"
      by simp
    from k1 show "Cell 1 1 1 ALIVE \<in> set ?cells"
      by (simp add: AlwayAliveEvaluator_def)
  qed
  show ?thesis
    by (intro conjI h1 i l p00 m00 p11 m11)
qed

text \<open>
  Claim C4: whenever \<^verbatim>\<open>evaluateCells\<close> has returned, \<^verbatim>\<open>activateNext\<close> returns too; the
  new current tree is the next tree that \<^verbatim>\<open>evaluateCells\<close> built, rebuilt from clones of
  its leaves (the same cells, with their coordinates, ages and states, in the same order),
  and the new next tree has no leaves: its count of alive cells is 0. And
  \<^verbatim>\<open>evaluateCells\<close> does return whenever the current tree has a root.
\<close>

theorem activateNext_after_evaluateCells:
  "(\<forall>gm'. evaluateCells gm evaluate = Some (Inr gm') \<longrightarrow>
      (\<exists>gm''. activateNext gm' = Some gm'' \<and>
           currentTree gm'' = nextTree gm' \<and>
           leaves (currentTree gm'') = leaves (nextTree gm') \<and>
           leaves (nextTree gm'') = [] \<and>
           aliveCellsCount (nextTree gm'') = 0)) \<and>
   (root (currentTree gm) \<noteq> None \<longrightarrow> (\<exists>gm'. evaluateCells gm evaluate = Some (Inr gm')))"
proof (intro conjI allI impI)
  fix gm'
  assume r: "evaluateCells gm evaluate = Some (Inr gm')"
  then obtain cells nxt where
    i: "QuadTree_index (clear (nextTree gm)) (Some cells) = Some nxt" and
    e: "gm' = gm\<lparr>nextTree := nxt\<rparr>"
    by (auto simp: evaluateCells_def split: sum.splits bind_splits)
  have c: "QuadTree_clone (Object (nextTree gm')) = Some (nextTree gm')"
    using clone_indexed [OF i] e by simp
  show "\<exists>gm''. activateNext gm' = Some gm'' \<and>
           currentTree gm'' = nextTree gm' \<and>
           leaves (currentTree gm'') = leaves (nextTree gm') \<and>
           leaves (nextTree gm'') = [] \<and>
           aliveCellsCount (nextTree gm'') = 0"
    using c by (simp add: activateNext_def index_clear aliveCellsCount_def)
next
  assume "root (currentTree gm) \<noteq> None"
  then obtain node where "root (currentTree gm) = Some node" by blast
  then show "\<exists>gm'. evaluateCells gm evaluate = Some (Inr gm')"
    by (rule evaluateCells_returns)
qed

theorem activateNext_after_evaluateCells_witness:
  "root (currentTree oneCellWorld) \<noteq> None \<and>
   evaluateCells oneCellWorld AlwayAliveEvaluator
     = Some (Inr (oneCellWorld\<lparr>nextTree := fourCellsIndexed\<rparr>)) \<and>
   (\<exists>gm''. activateNext (oneCellWorld\<lparr>nextTree := fourCellsIndexed\<rparr>) = Some gm'' \<and>
          currentTree gm'' = fourCellsIndexed \<and>
          leaves (currentTree gm'')
            = [Cell 0 0 4 ALIVE, Cell 0 1 1 ALIVE, Cell 1 0 1 ALIVE, Cell 1 1 1 ALIVE] \<and>
          aliveCellsCount (nextTree gm'') = 0)"
proof -
  have h0: "root (currentTree oneCellWorld) \<noteq> None"
    by (simp add: oneCellWorld_def oneCellIndexed_def)
  have h: "evaluateCells oneCellWorld AlwayAliveEvaluator
             = Some (Inr (oneCellWorld\<lparr>nextTree := fourCellsIndexed\<rparr>))"
    by code_simp
  from activateNext_after_evaluateCells [of oneCellWorld AlwayAliveEvaluator] h
  obtain gm'' where "activateNext (oneCellWorld\<lparr>nextTree := fourCellsIndexed\<rparr>) = Some gm''"
    "currentTree gm'' = nextTree (oneCellWorld\<lparr>nextTree := fourCellsIndexed\<rparr>)"
    "aliveCellsCount (nextTree gm'') = 0"
    by blast
  with h0 h show ?thesis by (auto simp: fourCellsIndexed_def)
qed

end
